theory Spec2Isabelle
  imports Main "HOL-Library.AList"
begin

section \<open>Pure paths (the part of pathlib the build script uses)\<close>

text \<open>
  The script \<^verbatim>\<open>scripts/build/xmake.py\<close> computes with \<^verbatim>\<open>pathlib\<close> paths in their
  POSIX flavour. A path is its root (\<^verbatim>\<open>''\<close>, \<^verbatim>\<open>'/'\<close> or \<^verbatim>\<open>'//'\<close>) and the list of its
  components. POSIX keeps exactly two leading slashes apart from one; three or more
  collapse into one.
\<close>

datatype anchor = Relative | Slash | DoubleSlash

datatype ppath = Path (root: anchor) (parts: "string list")

datatype error = ValueError | FileNotFoundError | OSError

text \<open>\<^verbatim>\<open>s.split('/')\<close>\<close>

fun split_slash :: "string \<Rightarrow> string list" where
  "split_slash [] = [[]]"
| "split_slash (c # cs) =
     (if c = CHR ''/'' then [] # split_slash cs
      else (case split_slash cs of [] \<Rightarrow> [[c]] | w # ws \<Rightarrow> (c # w) # ws))"

text \<open>
  \<^verbatim>\<open>posixpath.splitroot\<close>: no leading slash, no root; a leading slash whose second
  character is no slash, or whose third character is a slash again, the root \<^verbatim>\<open>'/'\<close>;
  otherwise the root \<^verbatim>\<open>'//'\<close>.
\<close>

fun splitroot :: "string \<Rightarrow> anchor" where
  "splitroot [] = Relative"
| "splitroot [a] = (if a = CHR ''/'' then Slash else Relative)"
| "splitroot [a, b] =
     (if a \<noteq> CHR ''/'' then Relative else if b \<noteq> CHR ''/'' then Slash else DoubleSlash)"
| "splitroot (a # b # c # s) =
     (if a \<noteq> CHR ''/'' then Relative
      else if b \<noteq> CHR ''/'' \<or> c = CHR ''/'' then Slash
      else DoubleSlash)"

text \<open>
  \<^verbatim>\<open>pathlib.PurePath(s)\<close>: the root, and the components that are neither empty nor
  \<^verbatim>\<open>'.'\<close>.
\<close>

definition pure_path :: "string \<Rightarrow> ppath" where
  "pure_path s = Path (splitroot s) (filter (\<lambda>w. w \<noteq> [] \<and> w \<noteq> ''.'') (split_slash s))"

text \<open>\<^verbatim>\<open>sep.join(xs)\<close>\<close>

fun join :: "string \<Rightarrow> string list \<Rightarrow> string" where
  "join sep [] = []"
| "join sep [x] = x"
| "join sep (x # y # ys) = x @ sep @ join sep (y # ys)"

text \<open>\<^verbatim>\<open>str(p)\<close>\<close>

definition str :: "ppath \<Rightarrow> string" where
  "str p =
     (case root p of
        Relative \<Rightarrow> (if parts p = [] then ''.'' else join ''/'' (parts p))
      | Slash \<Rightarrow> ''/'' @ join ''/'' (parts p)
      | DoubleSlash \<Rightarrow> ''//'' @ join ''/'' (parts p))"

text \<open>\<^verbatim>\<open>p.is_absolute()\<close>: a POSIX path is absolute when it has a root.\<close>

definition is_absolute :: "ppath \<Rightarrow> bool" where
  "is_absolute p = (root p \<noteq> Relative)"

text \<open>
  \<^verbatim>\<open>p / q\<close>: an absolute right operand replaces the left one; a relative one is
  appended. Where the script divides by a string, the string is parsed first
  (\<open>truediv p (pure_path s)\<close>).
\<close>

definition truediv :: "ppath \<Rightarrow> ppath \<Rightarrow> ppath" where
  "truediv p q = (if is_absolute q then q else Path (root p) (parts p @ parts q))"

text \<open>\<^verbatim>\<open>p.parent\<close>: a path without components is its own parent.\<close>

definition parent :: "ppath \<Rightarrow> ppath" where
  "parent p = (if parts p = [] then p else Path (root p) (butlast (parts p)))"

text \<open>\<^verbatim>\<open>p.name\<close>: the last component, or the empty string.\<close>

definition name :: "ppath \<Rightarrow> string" where
  "name p = (if parts p = [] then [] else last (parts p))"

text \<open>
  \<^verbatim>\<open>p.relative_to(other)\<close>: raises \<^verbatim>\<open>ValueError\<close> unless \<open>other\<close> has the root of
  \<open>p\<close> and its components begin those of \<open>p\<close>.
\<close>

definition relative_to :: "ppath \<Rightarrow> ppath \<Rightarrow> error + ppath" where
  "relative_to p other =
     (if root p = root other \<and> take (length (parts other)) (parts p) = parts other
      then Inr (Path Relative (drop (length (parts other)) (parts p)))
      else Inl ValueError)"

text \<open>
  \<^verbatim>\<open>name.rfind('.')\<close> as an option, and \<^verbatim>\<open>p.suffix\<close>: the part of the name from its
  last dot on, when that dot is neither the first nor the last character.
\<close>

fun rfind_dot :: "string \<Rightarrow> nat option" where
  "rfind_dot [] = None"
| "rfind_dot (c # cs) =
     (case rfind_dot cs of
        Some i \<Rightarrow> Some (Suc i)
      | None \<Rightarrow> (if c = CHR ''.'' then Some 0 else None))"

definition suffix :: "ppath \<Rightarrow> string" where
  "suffix p =
     (case rfind_dot (name p) of
        None \<Rightarrow> []
      | Some i \<Rightarrow> (if 0 < i \<and> Suc i < length (name p) then drop i (name p) else []))"

text \<open>
  \<^verbatim>\<open>p.with_suffix(s)\<close> for a well-formed suffix \<open>s\<close> (the script passes \<^verbatim>\<open>'.o'\<close> and
  \<^verbatim>\<open>'.a'\<close>): raises \<^verbatim>\<open>ValueError\<close> on a path with an empty name.
\<close>

definition with_suffix :: "ppath \<Rightarrow> string \<Rightarrow> error + ppath" where
  "with_suffix p s =
     (if name p = [] then Inl ValueError
      else Inr (Path (root p)
        (butlast (parts p) @ [take (length (name p) - length (suffix p)) (name p) @ s])))"

section \<open>Path resolver\<close>

definition FILENAME :: string where "FILENAME = ''xmake.yml''"
definition CONFIG :: string where "CONFIG = ''.git''"
definition OUTDIR :: string where "OUTDIR = ''.out''"

text \<open>
  \<^verbatim>\<open>repo_abs_path()\<close>. The working directory \<open>cwd\<close> and the file system's
  \<^verbatim>\<open>exists()\<close> are its inputs; the loop variable \<open>d\<close> starts at \<open>cwd\<close>. The loop has
  no exit but the marker, so the function is partial: \<open>None\<close> is a walk that never
  returns.
\<close>

partial_function (option) repo_abs_path :: "(ppath \<Rightarrow> bool) \<Rightarrow> ppath \<Rightarrow> ppath option" where
  "repo_abs_path exists_on_disk d =
     (if \<not> exists_on_disk (truediv d (pure_path CONFIG))
      then repo_abs_path exists_on_disk (parent d)
      else Some d)"

declare repo_abs_path.simps [code]

text \<open>
  In the functions below \<open>repo\<close> stands for the value that \<^verbatim>\<open>repo_abs_path()\<close>
  returns: the working directory and the marker do not change during a run, so every
  call returns the same path, and a run in which the first call does not return does
  nothing else.
\<close>

definition curr_rel_path :: "ppath \<Rightarrow> ppath \<Rightarrow> error + ppath" where
  "curr_rel_path repo cwd = relative_to cwd repo"

definition prefix_to_rel_path :: "ppath \<Rightarrow> error + ppath" where
  "prefix_to_rel_path prefix = relative_to prefix (pure_path ''//'')"

definition prefix_to_abs_path :: "ppath \<Rightarrow> ppath \<Rightarrow> error + ppath" where
  "prefix_to_abs_path repo prefix =
     (case prefix_to_rel_path prefix of
        Inl e \<Rightarrow> Inl e
      | Inr rel_path \<Rightarrow> Inr (truediv repo rel_path))"

definition rel_path_to_prefix :: "ppath \<Rightarrow> ppath" where
  "rel_path_to_prefix rel_path = truediv (pure_path ''//'') rel_path"

definition curr_prefix :: "ppath \<Rightarrow> ppath \<Rightarrow> error + ppath" where
  "curr_prefix repo cwd =
     (case curr_rel_path repo cwd of
        Inl e \<Rightarrow> Inl e
      | Inr rel_path \<Rightarrow> Inr (rel_path_to_prefix rel_path))"

definition prefix_to_abs_out_name :: "ppath \<Rightarrow> ppath \<Rightarrow> error + ppath" where
  "prefix_to_abs_out_name repo prefix =
     (case prefix_to_abs_path repo prefix of
        Inl e \<Rightarrow> Inl e
      | Inr abs_path \<Rightarrow>
          (let nm = name abs_path; dep_dir = parent abs_path
           in Inr (truediv (truediv dep_dir (pure_path OUTDIR)) (pure_path nm))))"

section \<open>What a run does to the outside world\<close>

text \<open>
  The script's effects, in the order they happen: the two progress lines
  \<^verbatim>\<open>print('[Loading]', prefix)\<close> and \<^verbatim>\<open>print("[Doing]", target)\<close>, the command line
  that \<^verbatim>\<open>cmd_run\<close> prints, the \<^verbatim>\<open>mkdir\<close> of an output directory, and a subprocess
  with the exit status it returned.
\<close>

datatype event =
  Loading ppath
| Doing ppath
| Echo string
| Mkdir ppath
| Run "string list" int

text \<open>
  The operating system, as far as the driver meets it. \<open>mkdir sys p\<close> is what
  \<^verbatim>\<open>p.mkdir(exist_ok=True)\<close> does: \<open>None\<close> when the directory is there afterwards, or
  the exception it raises (\<^verbatim>\<open>FileNotFoundError\<close> where the parent is missing).
  \<open>subprocess_run sys command\<close> is what \<^verbatim>\<open>subprocess.run(command)\<close> does: the exit
  status of the subprocess, or the exception raised because the program could not be
  launched.
\<close>

record system =
  mkdir :: "ppath \<Rightarrow> error option"
  subprocess_run :: "string list \<Rightarrow> error + int"

text \<open>
  \<^verbatim>\<open>cmd_run\<close>: the command line is printed, then the subprocess runs.
  \<^verbatim>\<open>subprocess.run(command)\<close> is called without \<^verbatim>\<open>check\<close> and its result is dropped;
  the status is kept in the trace only. An exception of \<^verbatim>\<open>subprocess.run\<close> goes through.
\<close>

definition cmd_run :: "system \<Rightarrow> string list \<Rightarrow> event list \<Rightarrow> (error \<times> event list) + event list" where
  "cmd_run sys command out0 =
     (let out1 = out0 @ [Echo (join '' '' command)] in
      case subprocess_run sys command of
        Inl e \<Rightarrow> Inl (e, out1)
      | Inr status \<Rightarrow> Inr (out1 @ [Run command status]))"

section \<open>Rule loader\<close>

text \<open>
  A rule file as \<^verbatim>\<open>yaml.safe_load\<close> returns it: target names with their records, in
  the file's order; a key the file leaves out is \<open>None\<close>. After loading, the record's
  \<^verbatim>\<open>deps\<close> is the set of canonical dependencies. A Python set is modelled by a list
  without duplicates; its order is the model's, and no statement below depends on it.
\<close>

record raw_props =
  r_srcs :: "string list option"
  r_hdrs :: "string list option"
  r_main :: "bool option"
  r_deps :: "string list option"

record props =
  srcs :: "string list option"
  hdrs :: "string list option"
  main :: "bool option"
  deps :: "ppath list"

definition canonical_dep :: "ppath \<Rightarrow> ppath \<Rightarrow> ppath" where
  "canonical_dep prefix dep_path =
     (if is_absolute dep_path then dep_path else truediv prefix dep_path)"

definition canonical_deps :: "ppath \<Rightarrow> string list \<Rightarrow> ppath list" where
  "canonical_deps prefix ds = remdups (map (canonical_dep prefix) (map pure_path ds))"

text \<open>
  What the loop over \<^verbatim>\<open>rules.items()\<close> does to one record: \<^verbatim>\<open>deps\<close> defaults to the
  empty list and is replaced by the set of its canonical forms; the other keys stay.
\<close>

definition canonicalize :: "ppath \<Rightarrow> raw_props \<Rightarrow> props" where
  "canonicalize prefix rp =
     (let ds = (case r_deps rp of Some ds \<Rightarrow> ds | None \<Rightarrow> [])
      in \<lparr>srcs = r_srcs rp, hdrs = r_hdrs rp, main = r_main rp,
          deps = canonical_deps prefix ds\<rparr>)"

text \<open>\<^verbatim>\<open>canonical_name = prefix / name\<close>\<close>

definition canonical_name :: "ppath \<Rightarrow> string \<Rightarrow> ppath" where
  "canonical_name prefix nm = truediv prefix (pure_path nm)"

text \<open>
  The loop itself; \<^verbatim>\<open>prop_dict[canonical_name] = props\<close> keeps the place of a key that
  is already there, as \<open>AList.update\<close> does.
\<close>

fun load_rules :: "ppath \<Rightarrow> (string \<times> raw_props) list \<Rightarrow> (ppath \<times> props) list \<Rightarrow> (ppath \<times> props) list" where
  "load_rules prefix [] prop_dict = prop_dict"
| "load_rules prefix ((nm, rp) # rules) prop_dict =
     load_rules prefix rules
       (AList.update (canonical_name prefix nm) (canonicalize prefix rp) prop_dict)"

text \<open>
  \<^verbatim>\<open>load_prefix\<close>: \<open>read_yaml\<close> is the file system, giving the parsed rule file at a
  path, or \<open>None\<close> where there is no file to open. A file that does not parse into a
  mapping from names to records is outside the model.
\<close>

definition load_prefix ::
  "ppath \<Rightarrow> (ppath \<Rightarrow> (string \<times> raw_props) list option) \<Rightarrow> ppath \<Rightarrow> event list
   \<Rightarrow> (error \<times> event list) + ((ppath \<times> props) list \<times> event list)" where
  "load_prefix repo read_yaml prefix out =
     (let out1 = out @ [Loading prefix] in
      case prefix_to_rel_path prefix of
        Inl e \<Rightarrow> Inl (e, out1)
      | Inr rel_path \<Rightarrow>
          (let abs_path = truediv repo rel_path in
           case read_yaml (truediv abs_path (pure_path FILENAME)) of
             None \<Rightarrow> Inl (FileNotFoundError, out1)
           | Some rules \<Rightarrow> Inr (load_rules prefix rules [], out1)))"

section \<open>Toolchain driver\<close>

definition CC :: string where "CC = ''clang++''"
definition AR :: string where "AR = ''ar''"
definition OPT :: string where "OPT = ''-O3''"
definition STD :: string where "STD = ''-std=c++20''"
definition PTHREAD :: string where "PTHREAD = ''-pthread''"

definition INCLUDE :: "ppath \<Rightarrow> string" where
  "INCLUDE repo = ''-I'' @ str repo"

text \<open>
  \<^verbatim>\<open>dot_o = (target_out / src).with_suffix('.o')\<close> and
  \<^verbatim>\<open>dot_a = prefix_to_abs_out_name(dep).with_suffix('.a')\<close>
\<close>

definition dot_o :: "ppath \<Rightarrow> string \<Rightarrow> error + ppath" where
  "dot_o target_out src = with_suffix (truediv target_out (pure_path src)) ''.o''"

definition dot_a :: "ppath \<Rightarrow> ppath \<Rightarrow> error + ppath" where
  "dot_a repo dep =
     (case prefix_to_abs_out_name repo dep of
        Inl e \<Rightarrow> Inl e
      | Inr out_name \<Rightarrow> with_suffix out_name ''.a'')"

text \<open>The loop that compiles the sources; an exception leaves the trace as it is then.\<close>

fun compile_srcs ::
  "system \<Rightarrow> ppath \<Rightarrow> ppath \<Rightarrow> ppath \<Rightarrow> string list \<Rightarrow> string list \<times> event list
   \<Rightarrow> (error \<times> event list) + (string list \<times> event list)" where
  "compile_srcs sys repo rule_dir target_out [] (objects, out0) = Inr (objects, out0)"
| "compile_srcs sys repo rule_dir target_out (src # rest) (objects, out0) =
     (let src_path = truediv rule_dir (pure_path src) in
      case dot_o target_out src of
        Inl e \<Rightarrow> Inl (e, out0)
      | Inr p \<Rightarrow>
          (case cmd_run sys [CC, OPT, STD, INCLUDE repo, ''-c'', str src_path, ''-o'', str p]
                  out0 of
             Inl failure \<Rightarrow> Inl failure
           | Inr out1 \<Rightarrow>
               compile_srcs sys repo rule_dir target_out rest (objects @ [str p], out1)))"

text \<open>The loop that collects the archives of the dependencies.\<close>

fun dep_archives :: "ppath \<Rightarrow> ppath list \<Rightarrow> string list \<Rightarrow> error + string list" where
  "dep_archives repo [] objects = Inr objects"
| "dep_archives repo (dep # rest) objects =
     (case dot_a repo dep of
        Inl e \<Rightarrow> Inl e
      | Inr p \<Rightarrow> dep_archives repo rest (objects @ [str p]))"

text \<open>
  \<^verbatim>\<open>do_cpp\<close>. The defaults it writes back into the record (\<^verbatim>\<open>main\<close>, \<^verbatim>\<open>hdrs\<close>,
  \<^verbatim>\<open>srcs\<close>) are read by nothing but itself; \<^verbatim>\<open>hdrs\<close> is read and not used. Every
  exception ends it where it is raised: of a path computation, of \<^verbatim>\<open>mkdir\<close>, of
  \<^verbatim>\<open>subprocess.run\<close>.
\<close>

definition do_cpp ::
  "system \<Rightarrow> ppath \<Rightarrow> ppath \<Rightarrow> props \<Rightarrow> event list \<Rightarrow> (error \<times> event list) + event list" where
  "do_cpp sys repo nm ps out0 =
     (let the_srcs = (case srcs ps of None \<Rightarrow> [] | Some l \<Rightarrow> l);
          the_main = (case main ps of None \<Rightarrow> False | Some b \<Rightarrow> b);
          the_deps = deps ps
      in
      case prefix_to_abs_path repo nm of
        Inl e \<Rightarrow> Inl (e, out0)
      | Inr abs_path \<Rightarrow>
          (let rule_dir = parent abs_path;
               target_out = truediv rule_dir (pure_path OUTDIR)
           in
           case mkdir sys target_out of
             Some e \<Rightarrow> Inl (e, out0)
           | None \<Rightarrow>
               (case compile_srcs sys repo rule_dir target_out the_srcs
                       ([], out0 @ [Mkdir target_out]) of
                  Inl failure \<Rightarrow> Inl failure
                | Inr (own_objects, out2) \<Rightarrow>
                    (case dep_archives repo the_deps own_objects of
                       Inl e \<Rightarrow> Inl (e, out2)
                     | Inr objects \<Rightarrow>
                         (case prefix_to_abs_out_name repo nm of
                            Inl e \<Rightarrow> Inl (e, out2)
                          | Inr out_name \<Rightarrow>
                              if the_main
                              then cmd_run sys ([CC, PTHREAD, ''-o'', str out_name] @ objects) out2
                              else
                                (case with_suffix out_name ''.a'' of
                                   Inl e \<Rightarrow> Inl (e, out2)
                                 | Inr lib \<Rightarrow>
                                     cmd_run sys ([AR, ''rcsuUPT'', str lib] @ objects) out2))))))"

section \<open>Graph builder\<close>

text \<open>\<^verbatim>\<open>d.update(other)\<close>: the items of \<open>other\<close> are stored one after the other.\<close>

fun dict_update :: "('k \<times> 'v) list \<Rightarrow> ('k \<times> 'v) list \<Rightarrow> ('k \<times> 'v) list" where
  "dict_update d [] = d"
| "dict_update d ((k, v) # kvs) = dict_update (AList.update k v d) kvs"

text \<open>
  The state of the fixpoint loop: \<^verbatim>\<open>prop_dict\<close>, \<^verbatim>\<open>loaded_prefixes\<close>, \<^verbatim>\<open>targets\<close>, and
  the trace.
\<close>

record graph =
  g_prop_dict :: "(ppath \<times> props) list"
  g_loaded_prefixes :: "ppath set"
  g_targets :: "ppath set"
  g_out :: "event list"

text \<open>
  The loop over the dependencies of one target: the rule file of a directory that is
  not loaded yet is loaded into \<^verbatim>\<open>new_dict\<close>.
\<close>

fun load_deps ::
  "ppath \<Rightarrow> (ppath \<Rightarrow> (string \<times> raw_props) list option) \<Rightarrow> ppath list
   \<Rightarrow> (ppath \<times> props) list \<times> ppath set \<times> event list
   \<Rightarrow> (error \<times> event list) + ((ppath \<times> props) list \<times> ppath set \<times> event list)" where
  "load_deps repo read_yaml [] (new_dict, loaded, out0) = Inr (new_dict, loaded, out0)"
| "load_deps repo read_yaml (dep # rest) (new_dict, loaded, out0) =
     (let prefix = parent dep in
      if prefix \<notin> loaded
      then
        (case load_prefix repo read_yaml prefix out0 of
           Inl failure \<Rightarrow> Inl failure
         | Inr (fresh, out1) \<Rightarrow>
             load_deps repo read_yaml rest (dict_update new_dict fresh, insert prefix loaded, out1))
      else load_deps repo read_yaml rest (new_dict, loaded, out0))"

text \<open>The loop over \<^verbatim>\<open>prop_dict.items()\<close>, which also collects the targets.\<close>

fun visit ::
  "ppath \<Rightarrow> (ppath \<Rightarrow> (string \<times> raw_props) list option) \<Rightarrow> (ppath \<times> props) list
   \<Rightarrow> (ppath \<times> props) list \<times> ppath set \<times> ppath set \<times> event list
   \<Rightarrow> (error \<times> event list) + ((ppath \<times> props) list \<times> ppath set \<times> ppath set \<times> event list)" where
  "visit repo read_yaml [] (new_dict, loaded, found, out0) = Inr (new_dict, loaded, found, out0)"
| "visit repo read_yaml ((target, ps) # items) (new_dict, loaded, found, out0) =
     (case load_deps repo read_yaml (deps ps) (new_dict, loaded, out0) of
        Inl failure \<Rightarrow> Inl failure
      | Inr (new_dict', loaded', out1) \<Rightarrow>
          visit repo read_yaml items (new_dict', loaded', insert target found, out1))"

text \<open>
  The \<^verbatim>\<open>while size != len(prop_dict)\<close> loop (\<open>sz\<close> is \<^verbatim>\<open>size\<close>); on a tree in which
  every pass finds a new directory it does not return.
\<close>

partial_function (option) build_loop ::
  "ppath \<Rightarrow> (ppath \<Rightarrow> (string \<times> raw_props) list option) \<Rightarrow> nat \<Rightarrow> graph
   \<Rightarrow> ((error \<times> event list) + graph) option" where
  "build_loop repo read_yaml sz g =
     (if sz \<noteq> length (g_prop_dict g)
      then
        (case visit repo read_yaml (g_prop_dict g)
                ([], g_loaded_prefixes g, g_targets g, g_out g) of
           Inl failure \<Rightarrow> Some (Inl failure)
         | Inr (new_dict, loaded, found, out1) \<Rightarrow>
             build_loop repo read_yaml (length (g_prop_dict g))
               \<lparr>g_prop_dict = dict_update (g_prop_dict g) new_dict,
                g_loaded_prefixes = loaded, g_targets = found, g_out = out1\<rparr>)
      else Some (Inr g))"

declare build_loop.simps [code]

text \<open>
  The script up to the scheduling loop: the rules of the working directory are loaded,
  its prefix is marked as loaded, and the loop starts with \<^verbatim>\<open>size = 0\<close>.
\<close>

definition build ::
  "ppath \<Rightarrow> ppath \<Rightarrow> (ppath \<Rightarrow> (string \<times> raw_props) list option)
   \<Rightarrow> ((error \<times> event list) + graph) option" where
  "build repo cwd read_yaml =
     (case curr_prefix repo cwd of
        Inl e \<Rightarrow> Some (Inl (e, []))
      | Inr here \<Rightarrow>
          (case load_prefix repo read_yaml here [] of
             Inl failure \<Rightarrow> Some (Inl failure)
           | Inr (prop_dict, out1) \<Rightarrow>
               build_loop repo read_yaml 0
                 \<lparr>g_prop_dict = prop_dict, g_loaded_prefixes = {here}, g_targets = {},
                  g_out = out1\<rparr>))"

section \<open>Scheduler\<close>

text \<open>
  The state of the scheduling loop: the set \<^verbatim>\<open>done_targets\<close> and the trace of the
  run. \<^verbatim>\<open>prop_dict\<close> is a dictionary, kept as the list of its items in insertion
  order; \<^verbatim>\<open>targets\<close> is the set the graph builder collected.
\<close>

record sched =
  done_targets :: "ppath set"
  out :: "event list"

text \<open>
  The \<^verbatim>\<open>for\<close> loop over \<^verbatim>\<open>prop_dict.items()\<close>, one pass. \<^verbatim>\<open>prop_dict[target]\<close> is the
  record \<open>ps\<close> of the item at hand. An exception of the driver ends the run, with the
  state it was raised in.
\<close>

fun scan ::
  "system \<Rightarrow> ppath \<Rightarrow> (ppath \<times> props) list \<Rightarrow> sched \<Rightarrow> (error \<times> sched) + sched" where
  "scan sys repo [] st = Inr st"
| "scan sys repo ((target, ps) # items) st =
     (if list_all (\<lambda>dep. dep \<in> done_targets st) (deps ps) \<and> target \<notin> done_targets st
      then
        (case do_cpp sys repo target ps (out st @ [Doing target]) of
           Inl (e, out') \<Rightarrow> Inl (e, st\<lparr>out := out'\<rparr>)
         | Inr out' \<Rightarrow>
             scan sys repo items
               \<lparr>done_targets = insert target (done_targets st), out = out'\<rparr>)
      else scan sys repo items st)"

text \<open>
  The \<^verbatim>\<open>while targets != done_targets\<close> loop. It has no other exit, so the function
  is partial: \<open>None\<close> is a run that never returns, \<open>Some (Inl _)\<close> one that an
  exception ended, \<open>Some (Inr st)\<close> one that left the loop in state \<open>st\<close>.
\<close>

partial_function (option) run_loop ::
  "system \<Rightarrow> ppath \<Rightarrow> ppath set \<Rightarrow> (ppath \<times> props) list \<Rightarrow> sched
   \<Rightarrow> ((error \<times> sched) + sched) option" where
  "run_loop sys repo targets prop_dict st =
     (if targets \<noteq> done_targets st
      then
        (case scan sys repo prop_dict st of
           Inl failure \<Rightarrow> Some (Inl failure)
         | Inr st' \<Rightarrow> run_loop sys repo targets prop_dict st')
      else Some (Inr st))"

declare run_loop.simps [code]

text \<open>\<^verbatim>\<open>done_targets = set()\<close>, and the trace of the scheduling loop begins.\<close>

definition start :: sched where
  "start = \<lparr>done_targets = {}, out = []\<rparr>"

text \<open>
  The same loop, stopped after at most \<open>n\<close> passes: the state the run is in then.
\<close>

fun passes ::
  "nat \<Rightarrow> system \<Rightarrow> ppath \<Rightarrow> ppath set \<Rightarrow> (ppath \<times> props) list \<Rightarrow> sched
   \<Rightarrow> (error \<times> sched) + sched" where
  "passes 0 sys repo targets prop_dict st = Inr st"
| "passes (Suc n) sys repo targets prop_dict st =
     (if targets \<noteq> done_targets st
      then
        (case scan sys repo prop_dict st of
           Inl failure \<Rightarrow> Inl failure
         | Inr st' \<Rightarrow> passes n sys repo targets prop_dict st')
      else Inr st)"

text \<open>The targets the scheduler handed to the driver, in that order.\<close>

fun doing :: "event list \<Rightarrow> ppath list" where
  "doing [] = []"
| "doing (Doing t # es) = t # doing es"
| "doing (e # es) = doing es"

text \<open>The command lines of the subprocesses of a trace, in order.\<close>

fun commands :: "event list \<Rightarrow> string list list" where
  "commands [] = []"
| "commands (Run c status # es) = c # commands es"
| "commands (e # es) = commands es"

section \<open>Notions the statements use\<close>

text \<open>
  A system on which every directory can be made and every program is launched and exits
  with the same status; a system with its exit statuses changed by \<open>f\<close>, nothing
  else; and a system with all of them changed to 0.
\<close>

definition exit_with :: "int \<Rightarrow> system" where
  "exit_with status = \<lparr>mkdir = (\<lambda>p. None), subprocess_run = (\<lambda>command. Inr status)\<rparr>"

definition with_statuses :: "(string list \<Rightarrow> int \<Rightarrow> int) \<Rightarrow> system \<Rightarrow> system" where
  "with_statuses f sys =
     sys\<lparr>subprocess_run := (\<lambda>command. map_sum id (f command) (subprocess_run sys command))\<rparr>"

definition zero_statuses :: "system \<Rightarrow> system" where
  "zero_statuses sys = with_statuses (\<lambda>command status. 0) sys"

text \<open>
  The \<open>k\<close>-th directory above \<open>d\<close> (\<open>d\<close> itself for \<open>k = 0\<close>, the root from the
  depth of \<open>d\<close> on), and whether a directory holds the marker.
\<close>

definition ancestor :: "ppath \<Rightarrow> nat \<Rightarrow> ppath" where
  "ancestor d k = Path (root d) (take (length (parts d) - k) (parts d))"

definition marked :: "(ppath \<Rightarrow> bool) \<Rightarrow> ppath \<Rightarrow> bool" where
  "marked exists_on_disk d = exists_on_disk (truediv d (pure_path CONFIG))"

text \<open>
  A trace with the exit statuses blotted out, a scheduler state and the result of a run
  with such a trace, and whether a run is over: an exception ended it, or the loop's
  condition fails.
\<close>

fun forget_status :: "event \<Rightarrow> event" where
  "forget_status (Run c status) = Run c 0"
| "forget_status e = e"

definition blind :: "sched \<Rightarrow> sched" where
  "blind st = st\<lparr>out := map forget_status (out st)\<rparr>"

definition blind_result :: "(error \<times> sched) + sched \<Rightarrow> (error \<times> sched) + sched" where
  "blind_result = map_sum (map_prod id blind) blind"

definition finished :: "ppath set \<Rightarrow> (error \<times> sched) + sched \<Rightarrow> bool" where
  "finished targets r = (case r of Inl failure \<Rightarrow> True | Inr st \<Rightarrow> targets = done_targets st)"

text \<open>
  The driver raises no exception on a target (whether it does depends neither on the
  exit statuses nor on the trace so far, only on the paths and on what the system lets
  it do); the edges of the dependency graph, from a
  dependency to the target that lists it; \<open>d\<close> occurs before the first \<open>t\<close> in a list;
  the state a run has reached; and the scheduler's invariant: the targets handed to
  the driver are the completed ones, each once, every one after its dependencies.
\<close>

definition driver_returns :: "system \<Rightarrow> ppath \<Rightarrow> ppath \<Rightarrow> props \<Rightarrow> bool" where
  "driver_returns sys repo target ps =
     (case do_cpp sys repo target ps [] of Inl failure \<Rightarrow> False | Inr out' \<Rightarrow> True)"

text \<open>
  A sufficient condition on the form of the input: the target and its dependencies are
  rooted at \<^verbatim>\<open>//\<close>, no component of theirs or of the repository root begins with a
  slash (no component of a parsed path does), and no source is a bare root.
\<close>

definition well_formed :: "ppath \<Rightarrow> ppath \<Rightarrow> props \<Rightarrow> bool" where
  "well_formed repo target ps =
     (root target = DoubleSlash \<and>
      list_all (\<lambda>dep. root dep = DoubleSlash) (deps ps) \<and>
      list_all (\<lambda>w. splitroot w = Relative)
        (parts repo @ parts target @ concat (map parts (deps ps))) \<and>
      list_all (\<lambda>src. is_absolute (pure_path src) \<longrightarrow> parts (pure_path src) \<noteq> [])
        (case srcs ps of None \<Rightarrow> [] | Some l \<Rightarrow> l))"

definition depends :: "(ppath \<times> props) list \<Rightarrow> (ppath \<times> ppath) set" where
  "depends prop_dict =
     set (concat (map (\<lambda>(target, ps). map (\<lambda>dep. (dep, target)) (deps ps)) prop_dict))"

definition precedes :: "'a \<Rightarrow> 'a \<Rightarrow> 'a list \<Rightarrow> bool" where
  "precedes d t xs = (d \<in> set (takeWhile (\<lambda>x. x \<noteq> t) xs))"

definition state_of :: "(error \<times> sched) + sched \<Rightarrow> sched" where
  "state_of r = (case r of Inl (e, st) \<Rightarrow> st | Inr st \<Rightarrow> st)"

definition ordered :: "(ppath \<times> props) list \<Rightarrow> sched \<Rightarrow> bool" where
  "ordered prop_dict st =
     (set (doing (out st)) = done_targets st \<and> distinct (doing (out st)) \<and>
      (\<forall>(d, t) \<in> depends prop_dict. t \<in> done_targets st \<longrightarrow> precedes d t (doing (out st))))"

text \<open>
  What holds of the state a run has reached, or ended in: no target was handed to the
  driver twice, and every completed target was handed to it (after an exception, the
  target at hand was handed over and is not completed).
\<close>

definition once :: "(error \<times> sched) + sched \<Rightarrow> bool" where
  "once r =
     (case r of
        Inl (e, st) \<Rightarrow> distinct (doing (out st)) \<and> done_targets st \<subseteq> set (doing (out st))
      | Inr st \<Rightarrow> distinct (doing (out st)) \<and> done_targets st = set (doing (out st)))"

text \<open>
  Neither \<open>x\<close> nor \<open>d\<close> is completed and \<open>x\<close> was never handed to the driver.
\<close>

definition never_ready :: "ppath \<Rightarrow> ppath \<Rightarrow> sched \<Rightarrow> bool" where
  "never_ready x d st = (d \<notin> done_targets st \<and> x \<notin> done_targets st \<and> x \<notin> set (doing (out st)))"

text \<open>
  The graph builder's invariant: the dictionary has no key twice, the collected targets
  are keys, and they are all the keys when the dictionary has the size the last pass
  saw.
\<close>

definition settled :: "nat \<Rightarrow> graph \<Rightarrow> bool" where
  "settled sz g =
     (distinct (map fst (g_prop_dict g)) \<and> g_targets g \<subseteq> fst ` set (g_prop_dict g) \<and>
      (sz = length (g_prop_dict g) \<longrightarrow> g_targets g = fst ` set (g_prop_dict g)))"

text \<open>
  A path as parsing leaves it: no component is empty, is a dot, or holds a slash.
\<close>

definition normal :: "ppath \<Rightarrow> bool" where
  "normal p = list_all (\<lambda>w. w \<noteq> [] \<and> w \<noteq> ''.'' \<and> CHR ''/'' \<notin> set w) (parts p)"

section \<open>Example inputs\<close>

text \<open>A disk without any marker directory, and one whose only marker is in \<open>p\<close>.\<close>

definition nothing_exists :: "ppath \<Rightarrow> bool" where
  "nothing_exists p = False"

definition marker_in :: "ppath \<Rightarrow> ppath \<Rightarrow> bool" where
  "marker_in p q = (q = truediv p (pure_path CONFIG))"

text \<open>
  A rule file \<^verbatim>\<open>/r/lib/xmake.yml\<close> that declares \<^verbatim>\<open>core\<close> with one source and no
  \<^verbatim>\<open>deps\<close> key, and nothing else on disk.
\<close>

definition core_rule :: raw_props where
  "core_rule = \<lparr>r_srcs = Some [''a.cc''], r_hdrs = None, r_main = None, r_deps = None\<rparr>"

definition lib_yaml :: "ppath \<Rightarrow> (string \<times> raw_props) list option" where
  "lib_yaml p = (if p = pure_path ''/r/lib/xmake.yml'' then Some [(''core'', core_rule)] else None)"

text \<open>
  Loaded records: the library \<^verbatim>\<open>//lib/core\<close> and the executable \<^verbatim>\<open>//app/main\<close> that
  depends on it, and a library \<^verbatim>\<open>//app/util\<close> with the same dependency.
\<close>

definition core_ps :: props where
  "core_ps = \<lparr>srcs = Some [''a.cc''], hdrs = None, main = Some False, deps = []\<rparr>"

definition main_ps :: props where
  "main_ps = \<lparr>srcs = Some [''main.cc''], hdrs = None, main = Some True,
     deps = [pure_path ''//lib/core'']\<rparr>"

definition util_ps :: props where
  "util_ps = \<lparr>srcs = Some [''u.cc''], hdrs = None, main = None,
     deps = [pure_path ''//lib/core'']\<rparr>"

text \<open>
  Three dictionaries of loaded rules: the executable before the library it needs; two
  libraries that depend on each other; a library whose dependency is defined nowhere.
\<close>

definition app_graph :: "(ppath \<times> props) list" where
  "app_graph = [(pure_path ''//app/main'', main_ps), (pure_path ''//lib/core'', core_ps)]"

definition ping_ps :: props where
  "ping_ps = \<lparr>srcs = Some [''ping.cc''], hdrs = None, main = None, deps = [pure_path ''//b/pong'']\<rparr>"

definition pong_ps :: props where
  "pong_ps = \<lparr>srcs = Some [''pong.cc''], hdrs = None, main = None, deps = [pure_path ''//a/ping'']\<rparr>"

definition cycle_graph :: "(ppath \<times> props) list" where
  "cycle_graph = [(pure_path ''//a/ping'', ping_ps), (pure_path ''//b/pong'', pong_ps)]"

definition x_ps :: props where
  "x_ps = \<lparr>srcs = Some [''x.cc''], hdrs = None, main = None, deps = [pure_path ''//y/missing'']\<rparr>"

definition x_graph :: "(ppath \<times> props) list" where
  "x_graph = [(pure_path ''//x/x'', x_ps)]"

text \<open>
  A rule file \<^verbatim>\<open>/r/app/xmake.yml\<close> whose target \<^verbatim>\<open>main\<close> refers to its dependencies in
  three ways: qualified, bare, and bare with a leading dot.
\<close>

definition main_rule :: raw_props where
  "main_rule = \<lparr>r_srcs = Some [''main.cc''], r_hdrs = None, r_main = Some True,
     r_deps = Some [''//lib/core'', ''helper'', ''./helper'']\<rparr>"

definition helper_rule :: raw_props where
  "helper_rule = \<lparr>r_srcs = Some [''helper.cc''], r_hdrs = None, r_main = None, r_deps = Some []\<rparr>"

definition app_yaml :: "ppath \<Rightarrow> (string \<times> raw_props) list option" where
  "app_yaml p =
     (if p = pure_path ''/r/app/xmake.yml''
      then Some [(''main'', main_rule), (''helper'', helper_rule)]
      else None)"

definition bad_ps :: props where
  "bad_ps = \<lparr>srcs = Some [''/''], hdrs = None, main = None, deps = []\<rparr>"

definition bad_graph :: "(ppath \<times> props) list" where
  "bad_graph = [(pure_path ''//lib/bad'', bad_ps)]"

section \<open>The walk to the repository root\<close>

lemma parent_ancestor: "parent (ancestor d k) = ancestor d (Suc k)"
  by (cases d) (auto simp: parent_def ancestor_def butlast_take)

lemma ancestor_0: "ancestor d 0 = d"
  by (cases d) (simp add: ancestor_def)

lemma ancestor_parent: "ancestor (parent d) k = ancestor d (Suc k)"
proof -
  have "ancestor (parent (ancestor d 0)) k = ancestor d (Suc k)"
    by (cases d) (auto simp: parent_def ancestor_def butlast_conv_take min_def)
  then show ?thesis by (simp add: ancestor_0)
qed

lemma ancestor_beyond: "length (parts d) \<le> k \<Longrightarrow> ancestor d k = ancestor d (length (parts d))"
  by (simp add: ancestor_def)

text \<open>The walk stops at the first marked directory on its way up.\<close>

lemma walk_found:
  "marked ex (ancestor d k) \<Longrightarrow> \<forall>j<k. \<not> marked ex (ancestor d j) \<Longrightarrow> i \<le> k \<Longrightarrow>
   repo_abs_path ex (ancestor d (k - i)) = Some (ancestor d k)"
proof (induction i)
  case 0
  then show ?case by (subst repo_abs_path.simps) (simp add: marked_def)
next
  case (Suc i)
  then have "\<not> marked ex (ancestor d (k - Suc i))" by simp
  moreover have "Suc (k - Suc i) = k - i" using Suc.prems by simp
  ultimately show ?case using Suc
    by (subst repo_abs_path.simps) (simp add: marked_def parent_ancestor)
qed

text \<open>A walk that returns has met a marked directory.\<close>

lemma walk_returns_marked:
  assumes "repo_abs_path ex d = Some y"
  shows "\<exists>k. marked ex (ancestor d k)"
proof (rule repo_abs_path.raw_induct
    [where P = "\<lambda>ex d y. \<exists>k. marked ex (ancestor d k)", OF _ assms])
  fix walk :: "(ppath \<Rightarrow> bool) \<Rightarrow> ppath \<Rightarrow> ppath option" and ex d y
  assume IH: "\<And>ex d y. walk ex d = Some y \<Longrightarrow> \<exists>k. marked ex (ancestor d k)"
    and step: "(if \<not> ex (truediv d (pure_path CONFIG)) then walk ex (parent d) else Some d) = Some y"
  show "\<exists>k. marked ex (ancestor d k)"
  proof (cases "marked ex d")
    case True
    then have "marked ex (ancestor d 0)" by (simp add: ancestor_0)
    then show ?thesis ..
  next
    case False
    with step have "walk ex (parent d) = Some y" by (simp add: marked_def)
    then obtain k where "marked ex (ancestor (parent d) k)" using IH by blast
    then have "marked ex (ancestor d (Suc k))" by (simp add: ancestor_parent)
    then show ?thesis ..
  qed
qed

lemma walk_forever:
  assumes "\<forall>k\<le>length (parts d). \<not> marked ex (ancestor d k)"
  shows "repo_abs_path ex d = None"
proof (cases "repo_abs_path ex d")
  case (Some y)
  then obtain k where k: "marked ex (ancestor d k)" using walk_returns_marked by blast
  show ?thesis
  proof (cases "k \<le> length (parts d)")
    case True with k assms show ?thesis by blast
  next
    case False
    then have "ancestor d k = ancestor d (length (parts d))" by (intro ancestor_beyond) simp
    with k have "marked ex (ancestor d (length (parts d)))" by simp
    moreover have "\<not> marked ex (ancestor d (length (parts d)))"
      using assms by blast
    ultimately show ?thesis by blast
  qed
qed simp

text \<open>
  Claim C7, as the code has it. \<^verbatim>\<open>repo_abs_path()\<close> walks parent by parent from the
  working directory and returns the first directory that holds the marker. It has no
  check for the file system's root, whose parent is the root itself: when no directory
  from the working directory up to the root holds the marker, the walk never returns,
  and no error is raised.
\<close>

theorem repo_abs_path_walk:
  "(marked ex (ancestor d k) \<and> (\<forall>j<k. \<not> marked ex (ancestor d j))
      \<longrightarrow> repo_abs_path ex d = Some (ancestor d k)) \<and>
   ((\<forall>k\<le>length (parts d). \<not> marked ex (ancestor d k))
      \<longrightarrow> repo_abs_path ex d = None)"
  using walk_found [of ex d k k] walk_forever [of d ex] by (simp add: ancestor_0)

theorem repo_abs_path_walk_witness:
  "repo_abs_path (marker_in (pure_path ''/r'')) (pure_path ''/r/app/sub'') = Some (pure_path ''/r'') \<and>
   repo_abs_path nothing_exists (pure_path ''/r/app/sub'') = None"
proof -
  have "marked (marker_in (pure_path ''/r'')) (ancestor (pure_path ''/r/app/sub'') 2)"
    by (simp add: marked_def marker_in_def ancestor_def pure_path_def truediv_def is_absolute_def
        CONFIG_def)
  moreover have "\<forall>j<2. \<not> marked (marker_in (pure_path ''/r'')) (ancestor (pure_path ''/r/app/sub'') j)"
    by (auto simp: marked_def marker_in_def ancestor_def pure_path_def truediv_def is_absolute_def
        CONFIG_def less_Suc_eq numeral_2_eq_2)
  moreover have "ancestor (pure_path ''/r/app/sub'') 2 = pure_path ''/r''"
    by (simp add: ancestor_def pure_path_def)
  moreover have "\<forall>k\<le>length (parts (pure_path ''/r/app/sub'')).
      \<not> marked nothing_exists (ancestor (pure_path ''/r/app/sub'') k)"
    by (simp add: marked_def nothing_exists_def)
  ultimately show ?thesis
    using repo_abs_path_walk [of "marker_in (pure_path ''/r'')" "pure_path ''/r/app/sub''" 2]
      repo_abs_path_walk [of nothing_exists "pure_path ''/r/app/sub''"]
    by simp
qed

text \<open>
  Against claim C7 as stated: on a disk without a marker the walk from
  \<^verbatim>\<open>/home/user/project\<close> does not fail with an error, it does not return.
\<close>

theorem repo_abs_path_never_returns:
  "repo_abs_path nothing_exists (pure_path ''/home/user/project'') = None"
  by (rule walk_forever) (simp add: marked_def nothing_exists_def)

section \<open>Prefixes and paths\<close>

text \<open>
  Claim C8. A valid prefix is a path rooted at \<^verbatim>\<open>//\<close>. Turning it into a relative path
  and back gives the prefix again; so does turning it into the real path under the
  repository root and reading that path, as the working directory, back as a prefix.
\<close>

theorem prefix_path_roundtrip:
  "root p = DoubleSlash \<Longrightarrow>
   (\<exists>rel. prefix_to_rel_path p = Inr rel \<and> rel_path_to_prefix rel = p) \<and>
   (\<exists>a. prefix_to_abs_path repo p = Inr a \<and> curr_prefix repo a = Inr p)"
  by (cases p)
    (auto simp: prefix_to_rel_path_def rel_path_to_prefix_def prefix_to_abs_path_def curr_prefix_def
      curr_rel_path_def relative_to_def pure_path_def truediv_def is_absolute_def)

theorem prefix_path_roundtrip_witness:
  "root (pure_path ''//lib/net'') = DoubleSlash \<and>
   prefix_to_rel_path (pure_path ''//lib/net'') = Inr (pure_path ''lib/net'') \<and>
   rel_path_to_prefix (pure_path ''lib/net'') = pure_path ''//lib/net'' \<and>
   prefix_to_abs_path (pure_path ''/r'') (pure_path ''//lib/net'') = Inr (pure_path ''/r/lib/net'') \<and>
   curr_prefix (pure_path ''/r'') (pure_path ''/r/lib/net'') = Inr (pure_path ''//lib/net'')"
proof -
  have r: "root (pure_path ''//lib/net'') = DoubleSlash" by (simp add: pure_path_def)
  have rel: "prefix_to_rel_path (pure_path ''//lib/net'') = Inr (pure_path ''lib/net'')"
    by (simp add: prefix_to_rel_path_def relative_to_def pure_path_def)
  have ab: "prefix_to_abs_path (pure_path ''/r'') (pure_path ''//lib/net'') = Inr (pure_path ''/r/lib/net'')"
    by (simp add: prefix_to_abs_path_def prefix_to_rel_path_def relative_to_def pure_path_def
        truediv_def is_absolute_def)
  show ?thesis
    using prefix_path_roundtrip [OF r, of "pure_path ''/r''"] r rel ab by auto
qed

text \<open>The other direction: a relative path is read back from its prefix.\<close>

lemma rel_path_roundtrip:
  "root rel = Relative \<Longrightarrow> prefix_to_rel_path (rel_path_to_prefix rel) = Inr rel"
  by (cases rel)
    (simp add: prefix_to_rel_path_def rel_path_to_prefix_def relative_to_def pure_path_def
      truediv_def is_absolute_def)

section \<open>Canonical dependencies\<close>

text \<open>One reference: kept when it is absolute, put under the prefix when it is not.\<close>

lemma canonical_dep_cases:
  "(is_absolute (pure_path dep) \<longrightarrow> canonical_dep prefix (pure_path dep) = pure_path dep) \<and>
   (\<not> is_absolute (pure_path dep) \<longrightarrow>
      canonical_dep prefix (pure_path dep) = Path (root prefix) (parts prefix @ parts (pure_path dep))) \<and>
   (is_absolute prefix \<longrightarrow>
      is_absolute (canonical_dep prefix (pure_path dep)) \<and>
      canonical_dep other (canonical_dep prefix (pure_path dep)) = canonical_dep prefix (pure_path dep))"
  by (simp add: canonical_dep_def truediv_def is_absolute_def)

section \<open>Rule loader: the \<^verbatim>\<open>deps\<close> key\<close>

text \<open>A key that no later rule of the file writes again keeps its record.\<close>

lemma load_rules_keeps:
  "map_of acc k = Some v \<Longrightarrow> k \<notin> (\<lambda>r. canonical_name prefix (fst r)) ` set rules \<Longrightarrow>
   map_of (load_rules prefix rules acc) k = Some v"
proof (induction rules arbitrary: acc)
  case Nil
  then show ?case by simp
next
  case (Cons a rules)
  obtain n2 r2 where a: "a = (n2, r2)" by (cases a)
  from Cons.prems have ne: "k \<noteq> canonical_name prefix n2"
    by (auto simp: a)
  show ?case using Cons.prems ne
    by (auto simp: a update_conv' intro!: Cons.IH)
qed

lemma map_of_load_rules:
  "distinct (map (\<lambda>r. canonical_name prefix (fst r)) rules) \<Longrightarrow> (nm, rp) \<in> set rules \<Longrightarrow>
   map_of (load_rules prefix rules acc) (canonical_name prefix nm) = Some (canonicalize prefix rp)"
proof (induction rules arbitrary: acc)
  case Nil
  then show ?case by simp
next
  case (Cons r rules)
  show ?case
  proof (cases "(nm, rp) = r")
    case True
    have "canonical_name prefix (fst r) \<notin> (\<lambda>r. canonical_name prefix (fst r)) ` set rules"
      using Cons.prems(1) by simp
    moreover have "fst r = nm" using True by auto
    ultimately have notin:
      "canonical_name prefix nm \<notin> (\<lambda>r. canonical_name prefix (fst r)) ` set rules"
      by simp
    have "load_rules prefix (r # rules) acc =
        load_rules prefix rules
          (AList.update (canonical_name prefix nm) (canonicalize prefix rp) acc)"
      using True by auto
    moreover have "map_of (AList.update (canonical_name prefix nm) (canonicalize prefix rp) acc)
        (canonical_name prefix nm) = Some (canonicalize prefix rp)"
      by (simp add: update_conv')
    ultimately show ?thesis using load_rules_keeps [OF _ notin] by simp
  next
    case False
    obtain n' rp' where r: "r = (n', rp')" by (cases r)
    from False show ?thesis using Cons r by auto
  qed
qed

text \<open>
  Claim C6, as the code has it. The loader reads \<^verbatim>\<open>deps\<close> with a default
  (\<^verbatim>\<open>props['deps'] if 'deps' in props else list()\<close>): when the rule file of a valid
  prefix can be read and its names denote different targets, a declared target whose
  record lacks the \<^verbatim>\<open>deps\<close> key does not make the loader fail; it is loaded with the
  empty dependency set, its other keys as they were.
\<close>

theorem missing_deps_default_to_empty:
  assumes "prefix_to_rel_path prefix = Inr rel_path"
    and "read_yaml (truediv (truediv repo rel_path) (pure_path FILENAME)) = Some rules"
    and "distinct (map (\<lambda>r. canonical_name prefix (fst r)) rules)"
    and "(nm, rp) \<in> set rules"
    and "r_deps rp = None"
  shows "\<exists>prop_dict out'. load_prefix repo read_yaml prefix out0 = Inr (prop_dict, out') \<and>
     map_of prop_dict (canonical_name prefix nm)
       = Some \<lparr>srcs = r_srcs rp, hdrs = r_hdrs rp, main = r_main rp, deps = []\<rparr>"
proof -
  have "canonicalize prefix rp = \<lparr>srcs = r_srcs rp, hdrs = r_hdrs rp, main = r_main rp, deps = []\<rparr>"
    using assms(5) by (simp add: canonicalize_def canonical_deps_def)
  then show ?thesis
    using assms(1,2) map_of_load_rules [OF assms(3,4), of "[]"]
    by (simp add: load_prefix_def)
qed

theorem missing_deps_default_to_empty_witness:
  "prefix_to_rel_path (pure_path ''//lib'') = Inr (pure_path ''lib'') \<and>
   lib_yaml (truediv (truediv (pure_path ''/r'') (pure_path ''lib'')) (pure_path FILENAME))
     = Some [(''core'', core_rule)] \<and>
   r_deps core_rule = None \<and>
   (\<exists>prop_dict out'. load_prefix (pure_path ''/r'') lib_yaml (pure_path ''//lib'') [] = Inr (prop_dict, out') \<and>
     map_of prop_dict (canonical_name (pure_path ''//lib'') ''core'')
       = Some \<lparr>srcs = r_srcs core_rule, hdrs = r_hdrs core_rule, main = r_main core_rule, deps = []\<rparr>)"
proof -
  have a: "prefix_to_rel_path (pure_path ''//lib'') = Inr (pure_path ''lib'')"
    by (simp add: prefix_to_rel_path_def relative_to_def pure_path_def)
  have b: "lib_yaml (truediv (truediv (pure_path ''/r'') (pure_path ''lib'')) (pure_path FILENAME))
     = Some [(''core'', core_rule)]"
    by (simp add: lib_yaml_def pure_path_def truediv_def is_absolute_def FILENAME_def)
  have c: "distinct (map (\<lambda>r. canonical_name (pure_path ''//lib'') (fst r)) [(''core'', core_rule)])"
    by simp
  have d: "(''core'', core_rule) \<in> set [(''core'', core_rule)]" by simp
  have e: "r_deps core_rule = None" by (simp add: core_rule_def)
  show ?thesis
    using missing_deps_default_to_empty
      [of "pure_path ''//lib''" "pure_path ''lib''" lib_yaml "pure_path ''/r''"
        "[(''core'', core_rule)]" "''core''" core_rule "[]"] a b c d e
    by simp
qed

text \<open>
  Against claim C6 as stated: the rule file \<^verbatim>\<open>/r/lib/xmake.yml\<close> declares \<^verbatim>\<open>core\<close>
  without a \<^verbatim>\<open>deps\<close> key, and the loader returns its record, with no dependencies.
\<close>

theorem load_prefix_without_deps:
  "load_prefix (pure_path ''/r'') lib_yaml (pure_path ''//lib'') [] =
     Inr ([(pure_path ''//lib/core'',
            \<lparr>srcs = Some [''a.cc''], hdrs = None, main = None, deps = []\<rparr>)],
          [Loading (pure_path ''//lib'')])"
  by (simp add: load_prefix_def lib_yaml_def core_rule_def prefix_to_rel_path_def relative_to_def
      pure_path_def truediv_def is_absolute_def FILENAME_def canonicalize_def canonical_deps_def
      canonical_name_def)

section \<open>Rule loader: canonical dependencies\<close>

lemma canonical_dep_explicit:
  "canonical_dep prefix d = (if is_absolute d then d else Path (root prefix) (parts prefix @ parts d))"
  by (simp add: canonical_dep_def truediv_def)

lemma valid_prefix_absolute: "prefix_to_rel_path prefix = Inr rel_path \<Longrightarrow> is_absolute prefix"
  by (auto simp: prefix_to_rel_path_def relative_to_def is_absolute_def pure_path_def
      split: if_splits)

text \<open>A path that parsing could have left is read back from its string.\<close>

lemma split_slash_word: "CHR ''/'' \<notin> set w \<Longrightarrow> split_slash (w @ CHR ''/'' # rest) = w # split_slash rest"
  by (induction w) auto

lemma split_slash_single: "CHR ''/'' \<notin> set w \<Longrightarrow> split_slash w = [w]"
  by (induction w) auto

lemma split_slash_join:
  "ps \<noteq> [] \<Longrightarrow> list_all (\<lambda>w. CHR ''/'' \<notin> set w) ps \<Longrightarrow> split_slash (join ''/'' ps) = ps"
proof (induction "''/''" ps rule: join.induct)
  case 1
  then show ?case by simp
next
  case (2 x)
  then show ?case by (simp add: split_slash_single)
next
  case (3 x y ys)
  then show ?case by (simp add: split_slash_word)
qed

lemma splitroot_heads:
  "c \<noteq> CHR ''/'' \<Longrightarrow> splitroot (c # rest) = Relative"
  "c \<noteq> CHR ''/'' \<Longrightarrow> splitroot (CHR ''/'' # c # rest) = Slash"
  "c \<noteq> CHR ''/'' \<Longrightarrow> splitroot (CHR ''/'' # CHR ''/'' # c # rest) = DoubleSlash"
  by (cases rest; cases "tl rest"; simp)+

lemma pure_path_str:
  assumes "normal p"
  shows "pure_path (str p) = p"
proof (cases p)
  case (Path r ps)
  from assms Path have n: "list_all (\<lambda>w. w \<noteq> [] \<and> w \<noteq> ''.'' \<and> CHR ''/'' \<notin> set w) ps"
    by (simp add: normal_def)
  then have keep: "filter (\<lambda>w. w \<noteq> [] \<and> w \<noteq> ''.'') ps = ps"
    by (induction ps) auto
  from n have sf: "list_all (\<lambda>w. CHR ''/'' \<notin> set w) ps" by (induction ps) auto
  show ?thesis
  proof (cases ps)
    case Nil
    with Path show ?thesis by (cases r) (simp_all add: str_def pure_path_def)
  next
    case (Cons w ws)
    with n obtain c cs where w: "w = c # cs" "c \<noteq> CHR ''/''" by (cases w) auto
    have sp: "split_slash (join ''/'' ps) = ps" using Cons sf by (intro split_slash_join) auto
    obtain rest where j: "join ''/'' ps = c # rest"
      using Cons w by (cases ws) auto
    have "splitroot (str p) = r"
      using Path j w(2) Cons by (cases r) (simp_all add: str_def splitroot_heads)
    moreover have "filter (\<lambda>w. w \<noteq> [] \<and> w \<noteq> ''.'') (split_slash (str p)) = ps"
    proof (cases r)
      case Relative
      with Path Cons sp keep show ?thesis by (simp add: str_def)
    next
      case Slash
      with Path Cons sp keep show ?thesis by (simp add: str_def)
    next
      case DoubleSlash
      with Path Cons sp keep show ?thesis by (simp add: str_def)
    qed
    ultimately show ?thesis using Path by (simp add: pure_path_def)
  qed
qed

lemma split_slash_no_slash: "w \<in> set (split_slash s) \<Longrightarrow> CHR ''/'' \<notin> set w"
proof (induction s arbitrary: w)
  case Nil
  then show ?case by simp
next
  case (Cons c s)
  show ?case
  proof (cases "c = CHR ''/''")
    case True
    with Cons show ?thesis by auto
  next
    case False
    with Cons show ?thesis by (cases "split_slash s") auto
  qed
qed

lemma normal_pure_path: "normal (pure_path s)"
  using split_slash_no_slash by (auto simp: normal_def pure_path_def list_all_iff)

lemma normal_canonical_dep:
  "normal prefix \<Longrightarrow> normal (canonical_dep prefix (pure_path s))"
  using normal_pure_path [of s] by (auto simp: canonical_dep_def truediv_def normal_def)

lemma canonical_deps_set:
  "set (canonical_deps prefix ds) =
     (\<lambda>dep. if is_absolute (pure_path dep) then pure_path dep
            else Path (root prefix) (parts prefix @ parts (pure_path dep))) ` set ds"
  by (auto simp: canonical_deps_def canonical_dep_explicit)

lemma canonical_deps_again:
  assumes "is_absolute prefix" and "normal prefix"
  shows "canonical_deps other (map str (canonical_deps prefix ds)) = canonical_deps prefix ds"
proof -
  have "canonical_dep other (pure_path (str d)) = d" if "d \<in> set (canonical_deps prefix ds)" for d
  proof -
    from that obtain s where d: "d = canonical_dep prefix (pure_path s)"
      by (auto simp: canonical_deps_def)
    with assms(2) have "pure_path (str d) = d" by (simp add: pure_path_str normal_canonical_dep)
    moreover from d assms(1) have "is_absolute d"
      by (simp add: canonical_dep_def truediv_def is_absolute_def)
    ultimately show ?thesis by (simp add: canonical_dep_def)
  qed
  then have "map (canonical_dep other) (map pure_path (map str (canonical_deps prefix ds)))
      = canonical_deps prefix ds"
    by (simp add: map_idI)
  moreover have "distinct (canonical_deps prefix ds)" by (simp add: canonical_deps_def)
  ultimately show ?thesis
    by (metis canonical_deps_def distinct_remdups_id)
qed

text \<open>
  Claim C9. When the rule file of a valid prefix is loaded (its names denoting
  different targets), the dependencies stored for a declared target are exactly the
  canonical forms of its declared references, each once: a reference that already
  carries a prefix is stored as it is, under whatever directory it is loaded, and a
  bare relative reference is stored under the loading directory's own prefix. Every
  stored dependency carries a prefix, and canonicalizing the stored dependencies again,
  as they are written, under any directory gives them back unchanged.
\<close>

theorem loaded_deps_are_canonical:
  assumes "prefix_to_rel_path prefix = Inr rel_path"
    and "read_yaml (truediv (truediv repo rel_path) (pure_path FILENAME)) = Some rules"
    and "distinct (map (\<lambda>r. canonical_name prefix (fst r)) rules)"
    and "(nm, rp) \<in> set rules"
  shows "\<exists>prop_dict out' loaded.
     load_prefix repo read_yaml prefix out0 = Inr (prop_dict, out') \<and>
     map_of prop_dict (canonical_name prefix nm) = Some loaded \<and>
     distinct (deps loaded) \<and>
     set (deps loaded) =
       (\<lambda>dep. if is_absolute (pure_path dep) then pure_path dep
              else Path (root prefix) (parts prefix @ parts (pure_path dep)))
         ` set (case r_deps rp of None \<Rightarrow> [] | Some ds \<Rightarrow> ds) \<and>
     (\<forall>d \<in> set (deps loaded). is_absolute d) \<and>
     (normal prefix \<longrightarrow>
        (\<forall>other. canonical_deps other (map str (deps loaded)) = deps loaded))"
proof -
  define ds where "ds = (case r_deps rp of None \<Rightarrow> [] | Some ds \<Rightarrow> ds)"
  define loaded where "loaded = canonicalize prefix rp"
  have dl: "deps loaded = canonical_deps prefix ds"
    by (simp add: loaded_def canonicalize_def ds_def)
  have ab: "is_absolute prefix" using assms(1) by (rule valid_prefix_absolute)
  have f1: "load_prefix repo read_yaml prefix out0
        = Inr (load_rules prefix rules [], out0 @ [Loading prefix])"
    using assms(1,2) by (simp add: load_prefix_def)
  have f2: "map_of (load_rules prefix rules []) (canonical_name prefix nm) = Some loaded"
    unfolding loaded_def by (rule map_of_load_rules [OF assms(3,4)])
  have f3: "distinct (deps loaded)" by (simp add: dl canonical_deps_def)
  have f4: "set (deps loaded) =
       (\<lambda>dep. if is_absolute (pure_path dep) then pure_path dep
              else Path (root prefix) (parts prefix @ parts (pure_path dep))) ` set ds"
    unfolding dl by (rule canonical_deps_set)
  have f5: "\<forall>d \<in> set (deps loaded). is_absolute d"
    unfolding f4 using ab by (auto simp: is_absolute_def)
  have f6: "normal prefix \<longrightarrow>
      (\<forall>other. canonical_deps other (map str (deps loaded)) = deps loaded)"
    unfolding dl using canonical_deps_again [OF ab] by blast
  from f1 f2 f3 f4 f5 f6 show ?thesis unfolding ds_def by blast
qed

theorem loaded_deps_are_canonical_witness:
  "\<exists>prop_dict out' loaded.
     load_prefix (pure_path ''/r'') app_yaml (pure_path ''//app'') [] = Inr (prop_dict, out') \<and>
     map_of prop_dict (pure_path ''//app/main'') = Some loaded \<and>
     distinct (deps loaded) \<and>
     set (deps loaded) = {pure_path ''//lib/core'', pure_path ''//app/helper''} \<and>
     canonical_deps (pure_path ''//tools'') (map str (deps loaded)) = deps loaded"
proof -
  have a: "prefix_to_rel_path (pure_path ''//app'') = Inr (pure_path ''app'')"
    by (simp add: prefix_to_rel_path_def relative_to_def pure_path_def)
  have b: "app_yaml (truediv (truediv (pure_path ''/r'') (pure_path ''app'')) (pure_path FILENAME))
     = Some [(''main'', main_rule), (''helper'', helper_rule)]"
    by (simp add: app_yaml_def pure_path_def truediv_def is_absolute_def FILENAME_def)
  have c: "distinct (map (\<lambda>r. canonical_name (pure_path ''//app'') (fst r))
      [(''main'', main_rule), (''helper'', helper_rule)])"
    by (simp add: canonical_name_def pure_path_def truediv_def is_absolute_def)
  have d: "(''main'', main_rule) \<in> set [(''main'', main_rule), (''helper'', helper_rule)]" by simp
  have nm: "canonical_name (pure_path ''//app'') ''main'' = pure_path ''//app/main''"
    by (simp add: canonical_name_def pure_path_def truediv_def is_absolute_def)
  have img: "(\<lambda>dep. if is_absolute (pure_path dep) then pure_path dep
              else Path (root (pure_path ''//app'')) (parts (pure_path ''//app'') @ parts (pure_path dep)))
         ` set (case r_deps main_rule of None \<Rightarrow> [] | Some ds \<Rightarrow> ds)
       = {pure_path ''//lib/core'', pure_path ''//app/helper''}"
    by (auto simp: main_rule_def pure_path_def is_absolute_def)
  have n: "normal (pure_path ''//app'')" by (rule normal_pure_path)
  from loaded_deps_are_canonical
    [of "pure_path ''//app''" "pure_path ''app''" app_yaml "pure_path ''/r''"
      "[(''main'', main_rule), (''helper'', helper_rule)]" "''main''" main_rule "[]", OF a b c d]
  show ?thesis unfolding nm img using n by blast
qed

section \<open>Toolchain driver: what the commands are\<close>

lemma commands_append: "commands (xs @ ys) = commands xs @ commands ys"
  by (induction xs rule: commands.induct) auto

lemma doing_append: "doing (xs @ ys) = doing xs @ doing ys"
  by (induction xs rule: doing.induct) auto

lemma commands_cmd_run: "cmd_run sys c o1 = Inr o2 \<Longrightarrow> commands o2 = commands o1 @ [c]"
  by (auto simp: cmd_run_def Let_def commands_append split: sum.splits)

lemma doing_cmd_run:
  "cmd_run sys c o1 = Inr o2 \<Longrightarrow> doing o2 = doing o1"
  "cmd_run sys c o1 = Inl (e, o2) \<Longrightarrow> doing o2 = doing o1"
  by (auto simp: cmd_run_def Let_def doing_append split: sum.splits)

lemma compile_srcs_objects:
  "compile_srcs sys repo rd t_out ss (objs, o1) = Inr (objs', o2) \<Longrightarrow>
   \<exists>own. objs' = objs @ own \<and>
     list_all2 (\<lambda>src ob. \<exists>p. dot_o t_out src = Inr p \<and> ob = str p) ss own"
proof (induction ss arbitrary: objs o1)
  case Nil
  then show ?case by simp
next
  case (Cons src ss)
  from Cons.prems obtain p where p: "dot_o t_out src = Inr p"
    by (auto split: sum.splits)
  with Cons.prems obtain o1' where
    "compile_srcs sys repo rd t_out ss (objs @ [str p], o1') = Inr (objs', o2)"
    by (auto simp: Let_def split: sum.splits)
  from Cons.IH [OF this] obtain own where
    "objs' = (objs @ [str p]) @ own"
    "list_all2 (\<lambda>src ob. \<exists>p. dot_o t_out src = Inr p \<and> ob = str p) ss own"
    by blast
  with p have "objs' = objs @ (str p # own) \<and>
     list_all2 (\<lambda>src ob. \<exists>p. dot_o t_out src = Inr p \<and> ob = str p) (src # ss) (str p # own)"
    by simp
  then show ?case by blast
qed

lemma compile_srcs_doing:
  "compile_srcs sys repo rd t_out ss (objs, o1) = Inr (objs', o2) \<Longrightarrow> doing o2 = doing o1"
  "compile_srcs sys repo rd t_out ss (objs, o1) = Inl (e, o2) \<Longrightarrow> doing o2 = doing o1"
  by (induction ss arbitrary: objs o1) (auto simp: Let_def split: sum.splits dest: doing_cmd_run)

lemma dep_archives_objects:
  "dep_archives repo ds objs = Inr objs' \<Longrightarrow>
   \<exists>archives. objs' = objs @ archives \<and>
     list_all2 (\<lambda>dep ar. \<exists>p. dot_a repo dep = Inr p \<and> ar = str p) ds archives"
proof (induction ds arbitrary: objs)
  case Nil
  then show ?case by simp
next
  case (Cons dep ds)
  from Cons.prems obtain p where p: "dot_a repo dep = Inr p"
    by (auto split: sum.splits)
  with Cons.prems have "dep_archives repo ds (objs @ [str p]) = Inr objs'"
    by simp
  from Cons.IH [OF this] obtain archives where
    "objs' = (objs @ [str p]) @ archives"
    "list_all2 (\<lambda>dep ar. \<exists>p. dot_a repo dep = Inr p \<and> ar = str p) ds archives"
    by blast
  with p have "objs' = objs @ (str p # archives) \<and>
     list_all2 (\<lambda>dep ar. \<exists>p. dot_a repo dep = Inr p \<and> ar = str p) (dep # ds) (str p # archives)"
    by simp
  then show ?case by blast
qed

lemmas path_eval = pure_path_def truediv_def is_absolute_def parent_def name_def suffix_def
  with_suffix_def relative_to_def prefix_to_rel_path_def prefix_to_abs_path_def
  prefix_to_abs_out_name_def dot_o_def dot_a_def str_def OUTDIR_def

lemmas driver_eval = do_cpp_def cmd_run_def CC_def AR_def OPT_def STD_def PTHREAD_def INCLUDE_def


lemma util_trace:
  "do_cpp (exit_with 0) (pure_path ''/r'') (pure_path ''//app/util'') util_ps [] =
     Inr [Mkdir (pure_path ''/r/app/.out''),
          Echo ''clang++ -O3 -std=c++20 -I/r -c /r/app/u.cc -o /r/app/.out/u.o'',
          Run [''clang++'', ''-O3'', ''-std=c++20'', ''-I/r'', ''-c'', ''/r/app/u.cc'', ''-o'',
               ''/r/app/.out/u.o''] 0,
          Echo ''ar rcsuUPT /r/app/.out/util.a /r/app/.out/u.o /r/lib/.out/core.a'',
          Run [''ar'', ''rcsuUPT'', ''/r/app/.out/util.a'', ''/r/app/.out/u.o'',
               ''/r/lib/.out/core.a''] 0]"
  by (simp add: path_eval driver_eval util_ps_def exit_with_def)

text \<open>
  Claim C2, as the code has it. \<^verbatim>\<open>do_cpp\<close> collects the target's own objects and then
  the archive of every dependency into one list, and hands the whole list to the linker
  or to the archiver alike. For a target that is no executable, whenever the driver
  returns, its last subprocess is the archiver, on the target's library, the objects of
  its own sources, and after them the archive file of each of its dependencies.
\<close>

theorem archiver_gets_dependency_archives:
  assumes "main ps \<noteq> Some True"
    and "do_cpp sys repo nm ps out0 = Inr out'"
  shows "\<exists>abs_path lib own archives.
     prefix_to_abs_path repo nm = Inr abs_path \<and>
     list_all2 (\<lambda>src ob. \<exists>p. dot_o (truediv (parent abs_path) (pure_path OUTDIR)) src = Inr p \<and> ob = str p)
       (case srcs ps of None \<Rightarrow> [] | Some l \<Rightarrow> l) own \<and>
     list_all2 (\<lambda>dep ar. \<exists>p. dot_a repo dep = Inr p \<and> ar = str p) (deps ps) archives \<and>
     last (commands out') = [AR, ''rcsuUPT'', lib] @ own @ archives"
proof -
  from assms(1) have nomain: "(case main ps of None \<Rightarrow> False | Some b \<Rightarrow> b) = False"
    by (cases "main ps") auto
  from assms(2) obtain abs_path where ab: "prefix_to_abs_path repo nm = Inr abs_path"
    by (auto simp: do_cpp_def split: sum.splits option.splits)
  define t_out where "t_out = truediv (parent abs_path) (pure_path OUTDIR)"
  from assms(2) ab obtain objs o2 where
    cs: "compile_srcs sys repo (parent abs_path) t_out
          (case srcs ps of None \<Rightarrow> [] | Some l \<Rightarrow> l) ([], out0 @ [Mkdir t_out]) = Inr (objs, o2)"
    by (auto simp: do_cpp_def Let_def t_out_def split: sum.splits option.splits)
  from assms(2) ab cs obtain objects where
    da: "dep_archives repo (deps ps) objs = Inr objects"
    by (auto simp: do_cpp_def Let_def t_out_def split: sum.splits option.splits)
  from assms(2) ab cs da nomain obtain out_name lib where
    "prefix_to_abs_out_name repo nm = Inr out_name" "with_suffix out_name ''.a'' = Inr lib"
    and res: "cmd_run sys ([AR, ''rcsuUPT'', str lib] @ objects) o2 = Inr out'"
    by (auto simp: do_cpp_def Let_def t_out_def split: sum.splits option.splits)
  from compile_srcs_objects [OF cs] obtain own where
    own: "objs = own"
      "list_all2 (\<lambda>src ob. \<exists>p. dot_o t_out src = Inr p \<and> ob = str p)
         (case srcs ps of None \<Rightarrow> [] | Some l \<Rightarrow> l) own"
    by auto
  from dep_archives_objects [OF da] obtain archives where
    ar: "objects = objs @ archives"
      "list_all2 (\<lambda>dep ar. \<exists>p. dot_a repo dep = Inr p \<and> ar = str p) (deps ps) archives"
    by auto
  have "last (commands out') = [AR, ''rcsuUPT'', str lib] @ own @ archives"
    using commands_cmd_run [OF res] own(1) ar(1) by simp
  with ab own(2) ar(2) show ?thesis unfolding t_out_def by blast
qed


theorem archiver_gets_dependency_archives_witness:
  "main util_ps \<noteq> Some True \<and>
   (\<exists>abs_path lib own archives.
     prefix_to_abs_path (pure_path ''/r'') (pure_path ''//app/util'') = Inr abs_path \<and>
     list_all2 (\<lambda>src ob. \<exists>p. dot_o (truediv (parent abs_path) (pure_path OUTDIR)) src = Inr p \<and> ob = str p)
       (case srcs util_ps of None \<Rightarrow> [] | Some l \<Rightarrow> l) own \<and>
     list_all2 (\<lambda>dep ar. \<exists>p. dot_a (pure_path ''/r'') dep = Inr p \<and> ar = str p) (deps util_ps) archives \<and>
     [''ar'', ''rcsuUPT'', ''/r/app/.out/util.a'', ''/r/app/.out/u.o'', ''/r/lib/.out/core.a'']
       = [AR, ''rcsuUPT'', lib] @ own @ archives)"
proof -
  have m: "main util_ps \<noteq> Some True" by (simp add: util_ps_def)
  show ?thesis
    using archiver_gets_dependency_archives [OF m util_trace] m by simp
qed

text \<open>
  Against claim C2 as stated: \<^verbatim>\<open>//app/util\<close> is a library that depends on
  \<^verbatim>\<open>//lib/core\<close>, and the archive of \<^verbatim>\<open>core\<close> is among the inputs of its archiver.
\<close>

theorem archiver_given_core_archive:
  "main util_ps = None \<and>
   dot_a (pure_path ''/r'') (pure_path ''//lib/core'') = Inr (pure_path ''/r/lib/.out/core.a'') \<and>
   do_cpp (exit_with 0) (pure_path ''/r'') (pure_path ''//app/util'') util_ps [] =
     Inr [Mkdir (pure_path ''/r/app/.out''),
          Echo ''clang++ -O3 -std=c++20 -I/r -c /r/app/u.cc -o /r/app/.out/u.o'',
          Run [''clang++'', ''-O3'', ''-std=c++20'', ''-I/r'', ''-c'', ''/r/app/u.cc'', ''-o'',
               ''/r/app/.out/u.o''] 0,
          Echo ''ar rcsuUPT /r/app/.out/util.a /r/app/.out/u.o /r/lib/.out/core.a'',
          Run [''ar'', ''rcsuUPT'', ''/r/app/.out/util.a'', ''/r/app/.out/u.o'',
               ''/r/lib/.out/core.a''] 0]"
  by (simp add: path_eval driver_eval util_ps_def exit_with_def)

section \<open>Exit statuses\<close>

text \<open>
  Blotting the statuses out of a run gives the run on the system whose subprocesses all
  exit with status 0: nothing in the driver or in the scheduler reads a status.
\<close>

lemma zero_statuses_simps:
  "mkdir (zero_statuses sys) = mkdir sys"
  "subprocess_run (zero_statuses sys) c = map_sum id (\<lambda>status. 0) (subprocess_run sys c)"
  "zero_statuses (with_statuses f sys) = zero_statuses sys"
  by (simp_all add: zero_statuses_def with_statuses_def sum.map_comp comp_def id_def)

lemma cmd_run_forget:
  "map_sum (map_prod id (map forget_status)) (map forget_status) (cmd_run sys c o1)
   = cmd_run (zero_statuses sys) c (map forget_status o1)"
  by (cases "subprocess_run sys c") (simp_all add: cmd_run_def Let_def zero_statuses_simps)

lemma compile_srcs_forget:
  "map_sum (map_prod id (map forget_status)) (map_prod id (map forget_status))
     (compile_srcs sys repo rd t_out ss (objs, o1))
   = compile_srcs (zero_statuses sys) repo rd t_out ss (objs, map forget_status o1)"
proof (induction ss arbitrary: objs o1)
  case Nil
  then show ?case by simp
next
  case (Cons src ss)
  show ?case
  proof (cases "dot_o t_out src")
    case (Inl e)
    then show ?thesis by simp
  next
    case (Inr p)
    define c where "c = [CC, OPT, STD, INCLUDE repo, ''-c'', str (truediv rd (pure_path src)), ''-o'', str p]"
    note step = cmd_run_forget [of sys c o1]
    show ?thesis
    proof (cases "cmd_run sys c o1")
      case (Inl failure)
      with step Inr show ?thesis
        by (cases failure) (auto simp: Let_def c_def [symmetric] dest: sym)
    next
      case inr: (Inr o2)
      with step have "cmd_run (zero_statuses sys) c (map forget_status o1) = Inr (map forget_status o2)"
        by simp
      with Inr inr show ?thesis
        using Cons.IH [of "objs @ [str p]" o2] by (simp add: Let_def c_def [symmetric])
    qed
  qed
qed

lemma do_cpp_forget:
  "map_sum (map_prod id (map forget_status)) (map forget_status) (do_cpp sys repo nm ps o1)
   = do_cpp (zero_statuses sys) repo nm ps (map forget_status o1)"
proof (cases "prefix_to_abs_path repo nm")
  case (Inl e)
  then show ?thesis by (simp add: do_cpp_def)
next
  case (Inr abs_path)
  define t_out where "t_out = truediv (parent abs_path) (pure_path OUTDIR)"
  define ss where "ss = (case srcs ps of None \<Rightarrow> [] | Some l \<Rightarrow> l)"
  show ?thesis
  proof (cases "mkdir sys t_out")
    case (Some e)
    with Inr show ?thesis
      by (simp add: do_cpp_def Let_def t_out_def [symmetric] zero_statuses_simps)
  next
    case None
    have cs: "map_sum (map_prod id (map forget_status)) (map_prod id (map forget_status))
       (compile_srcs sys repo (parent abs_path) t_out ss ([], o1 @ [Mkdir t_out]))
     = compile_srcs (zero_statuses sys) repo (parent abs_path) t_out ss
         ([], map forget_status o1 @ [Mkdir t_out])"
      using compile_srcs_forget [of sys repo "parent abs_path" t_out ss "[]" "o1 @ [Mkdir t_out]"]
      by simp
    show ?thesis
    proof (cases "compile_srcs sys repo (parent abs_path) t_out ss ([], o1 @ [Mkdir t_out])")
      case (Inl failure)
      with cs Inr None show ?thesis
        by (cases failure)
          (auto simp: do_cpp_def Let_def t_out_def [symmetric] ss_def [symmetric]
            zero_statuses_simps dest: sym)
    next
      case inr: (Inr res)
      obtain objs o2 where res: "res = (objs, o2)" by (cases res)
      from cs inr res have
        "compile_srcs (zero_statuses sys) repo (parent abs_path) t_out ss
           ([], map forget_status o1 @ [Mkdir t_out]) = Inr (objs, map forget_status o2)"
        by simp
      with Inr None inr res show ?thesis
        by (simp add: do_cpp_def Let_def t_out_def [symmetric] ss_def [symmetric] cmd_run_forget
            zero_statuses_simps split: sum.splits)
    qed
  qed
qed

lemma do_cpp_doing:
  "do_cpp sys repo nm ps o1 = Inr o2 \<Longrightarrow> doing o2 = doing o1"
  "do_cpp sys repo nm ps o1 = Inl (e, o2) \<Longrightarrow> doing o2 = doing o1"
  by (auto simp: do_cpp_def Let_def doing_append
      split: sum.splits if_splits option.splits dest!: compile_srcs_doing doing_cmd_run)

lemma scan_forget:
  "blind_result (scan sys repo items st) = scan (zero_statuses sys) repo items (blind st)"
proof (induction items arbitrary: st)
  case Nil
  then show ?case by (simp add: blind_result_def)
next
  case (Cons item items)
  obtain target ps where item: "item = (target, ps)" by (cases item)
  show ?case
  proof (cases "list_all (\<lambda>dep. dep \<in> done_targets st) (deps ps) \<and> target \<notin> done_targets st")
    case False
    then show ?thesis using Cons.IH [of st] by (auto simp: item blind_def)
  next
    case True
    have d: "map_sum (map_prod id (map forget_status)) (map forget_status)
        (do_cpp sys repo target ps (out st @ [Doing target]))
      = do_cpp (zero_statuses sys) repo target ps (map forget_status (out st) @ [Doing target])"
      using do_cpp_forget [of sys repo target ps "out st @ [Doing target]"] by simp
    show ?thesis
    proof (cases "do_cpp sys repo target ps (out st @ [Doing target])")
      case (Inl failure)
      obtain e o2 where "failure = (e, o2)" by (cases failure)
      with Inl d True show ?thesis
        by (auto simp: item blind_def blind_result_def dest: sym)
    next
      case (Inr o2)
      with d have "do_cpp (zero_statuses sys) repo target ps (map forget_status (out st) @ [Doing target])
          = Inr (map forget_status o2)"
        by simp
      with Inr True show ?thesis
        using Cons.IH [of "\<lparr>done_targets = insert target (done_targets st), out = o2\<rparr>"]
        by (simp add: item blind_def)
    qed
  qed
qed

lemma passes_forget:
  "blind_result (passes n sys repo targets pd st) = passes n (zero_statuses sys) repo targets pd (blind st)"
proof (induction n arbitrary: st)
  case 0
  then show ?case by (simp add: blind_result_def)
next
  case (Suc n)
  show ?case
  proof (cases "targets \<noteq> done_targets st")
    case False
    then show ?thesis by (simp add: blind_result_def blind_def)
  next
    case True
    show ?thesis
    proof (cases "scan sys repo pd st")
      case (Inl failure)
      with True scan_forget [of sys repo pd st] show ?thesis
        by (auto simp: blind_def blind_result_def dest: sym)
    next
      case (Inr st')
      with scan_forget [of sys repo pd st] have "scan (zero_statuses sys) repo pd (blind st) = Inr (blind st')"
        by (simp add: blind_result_def)
      with Inr True show ?thesis using Suc.IH [of st'] by (simp add: blind_def)
    qed
  qed
qed

lemma run_loop_passes:
  assumes "run_loop sys repo targets pd st = Some r"
  shows "\<exists>n. passes n sys repo targets pd st = r \<and> finished targets r"
proof (rule run_loop.raw_induct
    [where P = "\<lambda>sys repo targets pd st r. \<exists>n. passes n sys repo targets pd st = r \<and> finished targets r",
      OF _ assms])
  fix loop :: "system \<Rightarrow> ppath \<Rightarrow> ppath set \<Rightarrow> (ppath \<times> props) list \<Rightarrow> sched
      \<Rightarrow> ((error \<times> sched) + sched) option"
    and sys repo targets pd st r
  assume IH: "\<And>sys repo targets pd st r. loop sys repo targets pd st = Some r \<Longrightarrow>
      \<exists>n. passes n sys repo targets pd st = r \<and> finished targets r"
    and step: "(if targets \<noteq> done_targets st
      then case scan sys repo pd st of
             Inl failure \<Rightarrow> Some (Inl failure)
           | Inr st' \<Rightarrow> loop sys repo targets pd st'
      else Some (Inr st)) = Some r"
  show "\<exists>n. passes n sys repo targets pd st = r \<and> finished targets r"
  proof (cases "targets \<noteq> done_targets st")
    case False
    with step have "passes 0 sys repo targets pd st = r \<and> finished targets r"
      by (auto simp: finished_def)
    then show ?thesis ..
  next
    case True
    show ?thesis
    proof (cases "scan sys repo pd st")
      case (Inl failure)
      with step True have "passes (Suc 0) sys repo targets pd st = r \<and> finished targets r"
        by (auto simp: finished_def)
      then show ?thesis ..
    next
      case (Inr st')
      with step True have "loop sys repo targets pd st' = Some r" by simp
      then obtain n where "passes n sys repo targets pd st' = r \<and> finished targets r"
        using IH by blast
      with Inr True have "passes (Suc n) sys repo targets pd st = r \<and> finished targets r"
        by simp
      then show ?thesis ..
    qed
  qed
qed

lemma passes_run_loop:
  "passes n sys repo targets pd st = r \<Longrightarrow> finished targets r \<Longrightarrow>
   run_loop sys repo targets pd st = Some r"
proof (induction n arbitrary: st)
  case 0
  then show ?case by (subst run_loop.simps) (auto simp: finished_def)
next
  case (Suc n)
  show ?case
  proof (cases "targets \<noteq> done_targets st")
    case False
    with Suc.prems show ?thesis by (subst run_loop.simps) auto
  next
    case True
    show ?thesis
    proof (cases "scan sys repo pd st")
      case (Inl failure)
      with True Suc.prems show ?thesis by (subst run_loop.simps) auto
    next
      case (Inr st')
      with True Suc.prems have "passes n sys repo targets pd st' = r" by simp
      from Suc.IH [OF this Suc.prems(2)] Inr True show ?thesis
        by (subst run_loop.simps) simp
    qed
  qed
qed

lemma finished_blind: "finished targets (blind_result r) = finished targets r"
  by (cases r) (auto simp: finished_def blind_result_def blind_def)

lemma run_loop_forget:
  "map_option blind_result (run_loop sys repo targets pd st)
   = run_loop (zero_statuses sys) repo targets pd (blind st)"
proof (cases "run_loop sys repo targets pd st")
  case (Some r)
  then obtain n where n: "passes n sys repo targets pd st = r" "finished targets r"
    using run_loop_passes by blast
  then have "passes n (zero_statuses sys) repo targets pd (blind st) = blind_result r"
    using passes_forget [of n sys repo targets pd st] by simp
  moreover have "finished targets (blind_result r)" using n(2) by (simp add: finished_blind)
  ultimately have "run_loop (zero_statuses sys) repo targets pd (blind st) = Some (blind_result r)"
    by (rule passes_run_loop)
  with Some show ?thesis by simp
next
  case None
  have "run_loop (zero_statuses sys) repo targets pd (blind st) = None"
  proof (cases "run_loop (zero_statuses sys) repo targets pd (blind st)")
    case (Some r')
    then obtain n where n: "passes n (zero_statuses sys) repo targets pd (blind st) = r'" "finished targets r'"
      using run_loop_passes by blast
    then have "blind_result (passes n sys repo targets pd st) = r'"
      using passes_forget [of n sys repo targets pd st] by simp
    with n(2) have "finished targets (passes n sys repo targets pd st)"
      using finished_blind by blast
    then have "run_loop sys repo targets pd st = Some (passes n sys repo targets pd st)"
      using passes_run_loop by blast
    with None show ?thesis by simp
  qed simp
  with None show ?thesis by simp
qed

lemma blind_start: "blind start = start"
  by (simp add: blind_def start_def)

text \<open>
  Claim C4, as the code has it. \<^verbatim>\<open>cmd_run\<close> calls \<^verbatim>\<open>subprocess.run\<close> and drops what
  it returns: no exit status is checked and none is turned into an error. Whatever
  statuses the subprocesses of a run exit with, change them in any way \<open>f\<close> and the run
  does the same, pass for pass, up to the statuses themselves: the same commands, the
  same completed targets, and it returns, fails or hangs alike.
\<close>

theorem exit_status_is_ignored:
  "blind_result (passes n (with_statuses f sys) repo targets prop_dict start)
     = blind_result (passes n sys repo targets prop_dict start) \<and>
   map_option blind_result (run_loop (with_statuses f sys) repo targets prop_dict start)
     = map_option blind_result (run_loop sys repo targets prop_dict start)"
  by (simp add: passes_forget run_loop_forget blind_start zero_statuses_simps)

lemma exit_one: "with_statuses (\<lambda>command status. 1) (exit_with 0) = exit_with 1"
  by (simp add: with_statuses_def exit_with_def)

theorem exit_status_is_ignored_witness:
  "blind_result (passes 2 (exit_with 1) (pure_path ''/r'') {pure_path ''//lib/core''}
       [(pure_path ''//lib/core'', core_ps)] start)
     = blind_result (passes 2 (exit_with 0) (pure_path ''/r'') {pure_path ''//lib/core''}
       [(pure_path ''//lib/core'', core_ps)] start) \<and>
   map_option blind_result (run_loop (exit_with 1) (pure_path ''/r'') {pure_path ''//lib/core''}
       [(pure_path ''//lib/core'', core_ps)] start)
     = map_option blind_result (run_loop (exit_with 0) (pure_path ''/r'') {pure_path ''//lib/core''}
       [(pure_path ''//lib/core'', core_ps)] start)"
  using exit_status_is_ignored [of _ "\<lambda>command status. 1" "exit_with 0"]
  by (simp add: exit_one)

lemma core_trace:
  "do_cpp (exit_with 1) (pure_path ''/r'') (pure_path ''//lib/core'') core_ps [Doing (pure_path ''//lib/core'')] =
     Inr [Doing (pure_path ''//lib/core''),
          Mkdir (pure_path ''/r/lib/.out''),
          Echo ''clang++ -O3 -std=c++20 -I/r -c /r/lib/a.cc -o /r/lib/.out/a.o'',
          Run [''clang++'', ''-O3'', ''-std=c++20'', ''-I/r'', ''-c'', ''/r/lib/a.cc'', ''-o'',
               ''/r/lib/.out/a.o''] 1,
          Echo ''ar rcsuUPT /r/lib/.out/core.a /r/lib/.out/a.o'',
          Run [''ar'', ''rcsuUPT'', ''/r/lib/.out/core.a'', ''/r/lib/.out/a.o''] 1]"
  by (simp add: path_eval driver_eval core_ps_def exit_with_def)

text \<open>
  Against claim C4 as stated: the compiler exits with status 1, the archiver runs all
  the same, the target is marked done and the run ends without an error.
\<close>

theorem failed_compile_goes_unnoticed:
  "run_loop (exit_with 1) (pure_path ''/r'') {pure_path ''//lib/core''}
     [(pure_path ''//lib/core'', core_ps)] start =
   Some (Inr \<lparr>done_targets = {pure_path ''//lib/core''},
     out = [Doing (pure_path ''//lib/core''),
          Mkdir (pure_path ''/r/lib/.out''),
          Echo ''clang++ -O3 -std=c++20 -I/r -c /r/lib/a.cc -o /r/lib/.out/a.o'',
          Run [''clang++'', ''-O3'', ''-std=c++20'', ''-I/r'', ''-c'', ''/r/lib/a.cc'', ''-o'',
               ''/r/lib/.out/a.o''] 1,
          Echo ''ar rcsuUPT /r/lib/.out/core.a /r/lib/.out/a.o'',
          Run [''ar'', ''rcsuUPT'', ''/r/lib/.out/core.a'', ''/r/lib/.out/a.o''] 1]\<rparr>)"
proof -
  have d: "deps core_ps = []" by (simp add: core_ps_def)
  show ?thesis
    apply (subst run_loop.simps)
    apply (simp add: start_def d core_trace)
    apply (subst run_loop.simps)
    apply simp
    done
qed

section \<open>Graph builder: the discovered targets\<close>

lemma dict_update_keys:
  "fst ` set (dict_update d kvs) = fst ` set d \<union> fst ` set kvs"
proof (induction kvs arbitrary: d)
  case Nil
  then show ?case by simp
next
  case (Cons kv kvs)
  obtain k v where "kv = (k, v)" by (cases kv)
  with Cons show ?case by (auto simp: dom_update [simplified dom_map_of_conv_image_fst])
qed

lemma dict_update_distinct:
  "distinct (map fst d) \<Longrightarrow> distinct (map fst (dict_update d kvs))"
proof (induction kvs arbitrary: d)
  case Nil
  then show ?case by simp
next
  case (Cons kv kvs)
  obtain k v where "kv = (k, v)" by (cases kv)
  with Cons show ?case by (simp add: distinct_update)
qed

lemma load_rules_distinct:
  "distinct (map fst acc) \<Longrightarrow> distinct (map fst (load_rules prefix rules acc))"
proof (induction rules arbitrary: acc)
  case Nil
  then show ?case by simp
next
  case (Cons r rules)
  obtain nm rp where "r = (nm, rp)" by (cases r)
  with Cons show ?case by (simp add: distinct_update)
qed

lemma visit_found:
  "visit repo read_yaml items (nd, loaded, found, o1) = Inr (nd', loaded', found', o2) \<Longrightarrow>
   found' = found \<union> fst ` set items"
proof (induction items arbitrary: nd loaded found o1)
  case Nil
  then show ?case by simp
next
  case (Cons item items)
  obtain t ps where item: "item = (t, ps)" by (cases item)
  from Cons.prems obtain nd1 l1 o1' where
    "visit repo read_yaml items (nd1, l1, insert t found, o1') = Inr (nd', loaded', found', o2)"
    by (auto simp: item split: sum.splits)
  from Cons.IH [OF this] show ?case by (auto simp: item)
qed

lemma build_loop_settled:
  assumes "build_loop repo read_yaml sz g = Some r"
  shows "\<forall>g'. r = Inr g' \<longrightarrow> settled sz g \<longrightarrow>
    distinct (map fst (g_prop_dict g')) \<and> g_targets g' = fst ` set (g_prop_dict g')"
proof (rule build_loop.raw_induct
    [where P = "\<lambda>repo read_yaml sz g r. \<forall>g'. r = Inr g' \<longrightarrow> settled sz g \<longrightarrow>
        distinct (map fst (g_prop_dict g')) \<and> g_targets g' = fst ` set (g_prop_dict g')",
      OF _ assms])
  fix loop :: "ppath \<Rightarrow> (ppath \<Rightarrow> (string \<times> raw_props) list option) \<Rightarrow> nat \<Rightarrow> graph
      \<Rightarrow> ((error \<times> event list) + graph) option"
    and repo read_yaml sz g r
  assume IH: "\<And>repo read_yaml sz g r. loop repo read_yaml sz g = Some r \<Longrightarrow>
      \<forall>g'. r = Inr g' \<longrightarrow> settled sz g \<longrightarrow>
        distinct (map fst (g_prop_dict g')) \<and> g_targets g' = fst ` set (g_prop_dict g')"
    and step: "(if sz \<noteq> length (g_prop_dict g)
      then case visit repo read_yaml (g_prop_dict g)
                ([], g_loaded_prefixes g, g_targets g, g_out g) of
           Inl failure \<Rightarrow> Some (Inl failure)
         | Inr (new_dict, loaded, found, out1) \<Rightarrow>
             loop repo read_yaml (length (g_prop_dict g))
               \<lparr>g_prop_dict = dict_update (g_prop_dict g) new_dict,
                g_loaded_prefixes = loaded, g_targets = found, g_out = out1\<rparr>
      else Some (Inr g)) = Some r"
  show "\<forall>g'. r = Inr g' \<longrightarrow> settled sz g \<longrightarrow>
        distinct (map fst (g_prop_dict g')) \<and> g_targets g' = fst ` set (g_prop_dict g')"
  proof (intro allI impI)
    fix g' assume r: "r = Inr g'" and s: "settled sz g"
    show "distinct (map fst (g_prop_dict g')) \<and> g_targets g' = fst ` set (g_prop_dict g')"
    proof (cases "sz \<noteq> length (g_prop_dict g)")
      case False
      with step r s show ?thesis by (auto simp: settled_def)
    next
      case True
      with step r obtain nd loaded found o1 where
        v: "visit repo read_yaml (g_prop_dict g) ([], g_loaded_prefixes g, g_targets g, g_out g)
              = Inr (nd, loaded, found, o1)"
        and l: "loop repo read_yaml (length (g_prop_dict g))
               \<lparr>g_prop_dict = dict_update (g_prop_dict g) nd,
                g_loaded_prefixes = loaded, g_targets = found, g_out = o1\<rparr> = Some (Inr g')"
        by (auto split: sum.splits)
      define g1 where "g1 = \<lparr>g_prop_dict = dict_update (g_prop_dict g) nd,
                g_loaded_prefixes = loaded, g_targets = found, g_out = o1\<rparr>"
      from visit_found [OF v] s have found: "found = fst ` set (g_prop_dict g)"
        by (auto simp: settled_def)
      have d1: "distinct (map fst (g_prop_dict g1))"
        using s by (simp add: g1_def settled_def dict_update_distinct)
      have sub: "fst ` set (g_prop_dict g) \<subseteq> fst ` set (g_prop_dict g1)"
        by (simp add: g1_def dict_update_keys)
      have "g_targets g1 = fst ` set (g_prop_dict g1)"
        if len: "length (g_prop_dict g) = length (g_prop_dict g1)"
      proof -
        have "card (fst ` set (g_prop_dict g)) = length (g_prop_dict g)"
          using s by (metis distinct_card length_map list.set_map settled_def)
        moreover have "card (fst ` set (g_prop_dict g1)) = length (g_prop_dict g1)"
          using d1 by (metis distinct_card length_map list.set_map)
        ultimately have "fst ` set (g_prop_dict g) = fst ` set (g_prop_dict g1)"
          using sub len by (intro card_subset_eq) auto
        with found show ?thesis by (simp add: g1_def)
      qed
      with d1 found sub have "settled (length (g_prop_dict g)) g1"
        by (auto simp: settled_def g1_def)
      with IH [OF l [folded g1_def]] show ?thesis by blast
    qed
  qed
qed


text \<open>
  What the graph builder hands to the scheduler: a dictionary without a repeated key,
  and the set of its keys as the discovered targets.
\<close>

lemma build_targets_are_keys:
  assumes "build repo cwd read_yaml = Some (Inr g)"
  shows "distinct (map fst (g_prop_dict g)) \<and> g_targets g = fst ` set (g_prop_dict g)"
proof -
  from assms obtain here pd o1 where
    lp: "load_prefix repo read_yaml here [] = Inr (pd, o1)"
    and bl: "build_loop repo read_yaml 0
        \<lparr>g_prop_dict = pd, g_loaded_prefixes = {here}, g_targets = {}, g_out = o1\<rparr> = Some (Inr g)"
    by (auto simp: build_def split: sum.splits)
  from lp have "distinct (map fst pd)"
    by (auto simp: load_prefix_def Let_def load_rules_distinct split: sum.splits option.splits)
  then have "settled 0 \<lparr>g_prop_dict = pd, g_loaded_prefixes = {here}, g_targets = {}, g_out = o1\<rparr>"
    by (simp add: settled_def)
  with build_loop_settled [OF bl] show ?thesis by blast
qed

section \<open>Toolchain driver: when it returns\<close>

text \<open>
  The driver's own exceptions come from its path computations: \<^verbatim>\<open>relative_to\<close> on a
  path that is not rooted at \<^verbatim>\<open>//\<close>, and \<^verbatim>\<open>with_suffix\<close> on a path without a name. On
  well-formed input neither happens, and the driver returns wherever the system makes
  the output directory and launches the programs.
\<close>

lemma parts_pure_path_nonempty: "w \<in> set (parts (pure_path s)) \<Longrightarrow> w \<noteq> []"
  by (auto simp: pure_path_def)

lemma name_pure_path: "parts (pure_path s) \<noteq> [] \<Longrightarrow> name (pure_path s) \<noteq> []"
  using parts_pure_path_nonempty [of "last (parts (pure_path s))" s]
  by (auto simp: name_def)

lemma name_under_out:
  "\<not> is_absolute (pure_path s) \<Longrightarrow>
   name (truediv (truediv d (pure_path OUTDIR)) (pure_path s)) \<noteq> []"
proof -
  assume rel: "\<not> is_absolute (pure_path s)"
  have out_parts: "parts (pure_path OUTDIR) = [''.out'']" "\<not> is_absolute (pure_path OUTDIR)"
    by (simp_all add: pure_path_def OUTDIR_def is_absolute_def)
  show ?thesis
  proof (cases "parts (pure_path s) = []")
    case True
    with rel out_parts show ?thesis by (simp add: truediv_def name_def)
  next
    case False
    then have "last (parts (pure_path s)) \<noteq> []"
      using parts_pure_path_nonempty [of "last (parts (pure_path s))" s] by simp
    with False rel out_parts show ?thesis by (simp add: truediv_def name_def)
  qed
qed

lemma dot_o_returns:
  assumes "is_absolute (pure_path src) \<longrightarrow> parts (pure_path src) \<noteq> []"
  shows "\<exists>p. dot_o (truediv d (pure_path OUTDIR)) src = Inr p"
proof (cases "is_absolute (pure_path src)")
  case True
  with assms have "name (pure_path src) \<noteq> []" by (simp add: name_pure_path)
  with True show ?thesis by (simp add: dot_o_def with_suffix_def truediv_def)
next
  case False
  from name_under_out [OF this, of d] show ?thesis by (simp add: dot_o_def with_suffix_def)
qed

lemma abs_path_of_prefix:
  "root p = DoubleSlash \<Longrightarrow>
   prefix_to_abs_path repo p = Inr (Path (root repo) (parts repo @ parts p))"
  by (simp add: prefix_to_abs_path_def prefix_to_rel_path_def relative_to_def pure_path_def
      truediv_def is_absolute_def)

lemma out_name_returns:
  assumes "root p = DoubleSlash" and "list_all (\<lambda>w. splitroot w = Relative) (parts repo @ parts p)"
  shows "\<exists>q. prefix_to_abs_out_name repo p = Inr q \<and> name q \<noteq> []"
proof -
  define a where "a = Path (root repo) (parts repo @ parts p)"
  have "splitroot (name a) = Relative"
  proof (cases "parts a = []")
    case True
    then show ?thesis by (simp add: name_def)
  next
    case False
    then have "last (parts a) \<in> set (parts repo @ parts p)"
      using last_in_set [of "parts a"] by (simp add: a_def)
    with assms(2) False show ?thesis by (auto simp: name_def list_all_iff)
  qed
  then have "\<not> is_absolute (pure_path (name a))" by (simp add: is_absolute_def pure_path_def)
  from name_under_out [OF this, of "parent a"] abs_path_of_prefix [OF assms(1), of repo]
  show ?thesis by (simp add: prefix_to_abs_out_name_def a_def Let_def)
qed

lemma dot_a_returns:
  assumes "root p = DoubleSlash" and "list_all (\<lambda>w. splitroot w = Relative) (parts repo @ parts p)"
  shows "\<exists>q. dot_a repo p = Inr q"
  using out_name_returns [OF assms] by (auto simp: dot_a_def with_suffix_def)

lemma cmd_run_returns:
  "\<forall>c. \<exists>status. subprocess_run sys c = Inr status \<Longrightarrow> \<exists>o2. cmd_run sys c o1 = Inr o2"
proof -
  assume "\<forall>c. \<exists>status. subprocess_run sys c = Inr status"
  then obtain status where "subprocess_run sys c = Inr status" by blast
  then show ?thesis by (simp add: cmd_run_def)
qed

lemma compile_srcs_returns:
  assumes "\<forall>c. \<exists>status. subprocess_run sys c = Inr status"
  shows "list_all (\<lambda>src. is_absolute (pure_path src) \<longrightarrow> parts (pure_path src) \<noteq> []) ss \<Longrightarrow>
   \<exists>r. compile_srcs sys repo rd (truediv d (pure_path OUTDIR)) ss (objs, o1) = Inr r"
proof (induction ss arbitrary: objs o1)
  case Nil
  then show ?case by simp
next
  case (Cons src ss)
  then obtain p where p: "dot_o (truediv d (pure_path OUTDIR)) src = Inr p"
    using dot_o_returns [of src d] by auto
  obtain o2 where "cmd_run sys
      [CC, OPT, STD, INCLUDE repo, ''-c'', str (truediv rd (pure_path src)), ''-o'', str p] o1 = Inr o2"
    using cmd_run_returns [OF assms] by blast
  with p Cons show ?case by (simp add: Let_def)
qed

lemma dep_archives_returns:
  "list_all (\<lambda>dep. root dep = DoubleSlash) ds \<Longrightarrow>
   list_all (\<lambda>w. splitroot w = Relative) (parts repo @ concat (map parts ds)) \<Longrightarrow>
   \<exists>r. dep_archives repo ds objs = Inr r"
proof (induction ds arbitrary: objs)
  case Nil
  then show ?case by simp
next
  case (Cons dep ds)
  then obtain q where "dot_a repo dep = Inr q"
    using dot_a_returns [of dep repo] by auto
  with Cons show ?case by simp
qed

lemma well_formed_driver_returns:
  assumes "well_formed repo target ps"
    and "\<forall>p. mkdir sys p = None"
    and "\<forall>c. \<exists>status. subprocess_run sys c = Inr status"
  shows "driver_returns sys repo target ps"
proof -
  define a where "a = Path (root repo) (parts repo @ parts target)"
  define ss where "ss = (case srcs ps of None \<Rightarrow> [] | Some l \<Rightarrow> l)"
  from assms(1) have ab: "prefix_to_abs_path repo target = Inr a"
    by (simp add: well_formed_def abs_path_of_prefix a_def)
  from assms(1) have "list_all (\<lambda>src. is_absolute (pure_path src) \<longrightarrow> parts (pure_path src) \<noteq> []) ss"
    by (simp add: well_formed_def ss_def)
  from compile_srcs_returns [OF assms(3) this, of repo "parent a" "parent a" "[]"
      "[Mkdir (truediv (parent a) (pure_path OUTDIR))]"]
  obtain own o2 where cs:
    "compile_srcs sys repo (parent a) (truediv (parent a) (pure_path OUTDIR)) ss
       ([], [Mkdir (truediv (parent a) (pure_path OUTDIR))]) = Inr (own, o2)"
    by (metis surj_pair)
  from assms(1) obtain objects where da: "dep_archives repo (deps ps) own = Inr objects"
    using dep_archives_returns [of "deps ps" repo own] by (auto simp: well_formed_def)
  from assms(1) obtain q where q: "prefix_to_abs_out_name repo target = Inr q" "name q \<noteq> []"
    using out_name_returns [of target repo] by (auto simp: well_formed_def)
  then obtain lib where lib: "with_suffix q ''.a'' = Inr lib" by (simp add: with_suffix_def)
  obtain o3 where link: "cmd_run sys ([CC, PTHREAD, ''-o'', str q] @ objects) o2 = Inr o3"
    using cmd_run_returns [OF assms(3)] by blast
  obtain o4 where ar: "cmd_run sys ([AR, ''rcsuUPT'', str lib] @ objects) o2 = Inr o4"
    using cmd_run_returns [OF assms(3)] by blast
  show ?thesis
    using ab cs da q(1) lib link ar assms(2)
    by (simp add: driver_returns_def do_cpp_def Let_def ss_def [symmetric])
qed

lemma splitroot_no_slash: "CHR ''/'' \<notin> set w \<Longrightarrow> splitroot w = Relative"
  by (cases w rule: splitroot.cases) auto

lemma pure_path_components:
  "list_all (\<lambda>w. splitroot w = Relative) (parts (pure_path s))"
  using splitroot_no_slash split_slash_no_slash by (auto simp: pure_path_def list_all_iff)

section \<open>Scheduler: an acyclic, fully defined graph\<close>

text \<open>
  The driver carries the trace it is given in front of what it adds, so where it
  returns on the empty trace it returns on every trace.
\<close>

lemma cmd_run_frame:
  "cmd_run sys c (o1 @ o2) = map_sum (map_prod id ((@) o1)) ((@) o1) (cmd_run sys c o2)"
  by (cases "subprocess_run sys c") (simp_all add: cmd_run_def Let_def)

lemma compile_srcs_frame:
  "compile_srcs sys repo rd t_out ss (objs, o1 @ o2)
   = map_sum (map_prod id ((@) o1)) (map_prod id ((@) o1)) (compile_srcs sys repo rd t_out ss (objs, o2))"
proof (induction ss arbitrary: objs o2)
  case Nil
  then show ?case by simp
next
  case (Cons src ss)
  show ?case
  proof (cases "dot_o t_out src")
    case (Inl e)
    then show ?thesis by simp
  next
    case (Inr p)
    define c where "c = [CC, OPT, STD, INCLUDE repo, ''-c'', str (truediv rd (pure_path src)), ''-o'', str p]"
    show ?thesis
    proof (cases "cmd_run sys c o2")
      case (Inl failure)
      with Inr cmd_run_frame [of sys c o1 o2] show ?thesis
        by (simp add: Let_def c_def [symmetric] id_def)
    next
      case inr: (Inr o3)
      with Inr cmd_run_frame [of sys c o1 o2] show ?thesis
        by (simp add: Let_def c_def [symmetric] Cons.IH)
    qed
  qed
qed

lemma do_cpp_frame:
  "do_cpp sys repo nm ps (o1 @ o2)
   = map_sum (map_prod id ((@) o1)) ((@) o1) (do_cpp sys repo nm ps o2)"
proof (cases "prefix_to_abs_path repo nm")
  case (Inl e)
  then show ?thesis by (simp add: do_cpp_def)
next
  case (Inr abs_path)
  define t_out where "t_out = truediv (parent abs_path) (pure_path OUTDIR)"
  define ss where "ss = (case srcs ps of None \<Rightarrow> [] | Some l \<Rightarrow> l)"
  show ?thesis
  proof (cases "mkdir sys t_out")
    case (Some e)
    with Inr show ?thesis by (simp add: do_cpp_def Let_def t_out_def [symmetric])
  next
    case None
    have cs: "compile_srcs sys repo (parent abs_path) t_out ss ([], o1 @ o2 @ [Mkdir t_out])
      = map_sum (map_prod id ((@) o1)) (map_prod id ((@) o1))
          (compile_srcs sys repo (parent abs_path) t_out ss ([], o2 @ [Mkdir t_out]))"
      using compile_srcs_frame [of sys repo "parent abs_path" t_out ss "[]" o1 "o2 @ [Mkdir t_out]"]
      by simp
    show ?thesis
    proof (cases "compile_srcs sys repo (parent abs_path) t_out ss ([], o2 @ [Mkdir t_out])")
      case (Inl failure)
      with cs Inr None show ?thesis
        by (cases failure) (simp add: do_cpp_def Let_def t_out_def [symmetric] ss_def [symmetric])
    next
      case inr: (Inr res)
      obtain objs o3 where res: "res = (objs, o3)" by (cases res)
      with cs inr Inr None show ?thesis
        by (simp add: do_cpp_def Let_def t_out_def [symmetric] ss_def [symmetric] cmd_run_frame
            split: sum.splits)
    qed
  qed
qed

lemma driver_returns_any:
  assumes "driver_returns sys repo target ps"
  shows "\<exists>o2. do_cpp sys repo target ps o1 = Inr o2 \<and> doing o2 = doing o1"
proof -
  from assms obtain y where y: "do_cpp sys repo target ps [] = Inr y"
    by (auto simp: driver_returns_def split: sum.splits)
  have "do_cpp sys repo target ps o1 = Inr (o1 @ y)"
    using do_cpp_frame [of sys repo target ps o1 "[]"] y by simp
  moreover have "doing (o1 @ y) = doing o1"
    using do_cpp_doing(1) [OF y] by (simp add: doing_append)
  ultimately show ?thesis by blast
qed

lemma precedes_snoc_new: "t \<notin> set xs \<Longrightarrow> precedes d t (xs @ [t]) = (d \<in> set xs)"
  unfolding precedes_def by (subst takeWhile_append2) auto

lemma precedes_snoc_old: "t \<in> set xs \<Longrightarrow> precedes d t (xs @ ys) = precedes d t xs"
  by (simp add: precedes_def takeWhile_append1)

lemma depends_iff:
  "(d, t) \<in> depends pd \<longleftrightarrow> (\<exists>ps. (t, ps) \<in> set pd \<and> d \<in> set (deps ps))"
  by (auto simp: depends_def)

lemma ordered_step:
  assumes dist: "distinct (map fst pd)" and mem: "(t, ps) \<in> set pd"
    and ord: "ordered pd st" and ready: "set (deps ps) \<subseteq> done_targets st" "t \<notin> done_targets st"
    and tr: "doing o2 = doing (out st) @ [t]"
  shows "ordered pd \<lparr>done_targets = insert t (done_targets st), out = o2\<rparr>"
proof -
  from ord have eq: "set (doing (out st)) = done_targets st" and di: "distinct (doing (out st))"
    and pr: "\<And>d t'. (d, t') \<in> depends pd \<Longrightarrow> t' \<in> done_targets st \<Longrightarrow> precedes d t' (doing (out st))"
    by (auto simp: ordered_def)
  have tnew: "t \<notin> set (doing (out st))" using eq ready(2) by simp
  have "precedes d t' (doing (out st) @ [t])"
    if e: "(d, t') \<in> depends pd" and m: "t' \<in> insert t (done_targets st)" for d t'
  proof (cases "t' = t")
    case True
    from e obtain ps' where "(t', ps') \<in> set pd" "d \<in> set (deps ps')"
      by (auto simp: depends_iff)
    with True dist mem have "d \<in> set (deps ps)"
      by (metis eq_key_imp_eq_value)
    with ready(1) eq have "d \<in> set (doing (out st))" by auto
    with True tnew show ?thesis by (simp add: precedes_snoc_new)
  next
    case False
    with m have "t' \<in> done_targets st" by simp
    with pr [OF e this] eq show ?thesis by (simp add: precedes_snoc_old)
  qed
  with eq di tnew tr show ?thesis
    by (auto simp: ordered_def)
qed

lemma scan_ok:
  assumes dist: "distinct (map fst pd)"
    and ret: "\<forall>(t, ps) \<in> set pd. driver_returns sys repo t ps"
  shows "set items \<subseteq> set pd \<Longrightarrow> ordered pd st \<Longrightarrow>
    \<exists>st'. scan sys repo items st = Inr st' \<and> ordered pd st' \<and>
      done_targets st \<subseteq> done_targets st' \<and>
      done_targets st' \<subseteq> done_targets st \<union> fst ` set items \<and>
      (\<forall>(t, ps) \<in> set items. set (deps ps) \<subseteq> done_targets st \<longrightarrow> t \<in> done_targets st')"
proof (induction items arbitrary: st)
  case Nil
  then show ?case by simp
next
  case (Cons item items)
  obtain t ps where item: "item = (t, ps)" by (cases item)
  from Cons.prems have mem: "(t, ps) \<in> set pd" and sub: "set items \<subseteq> set pd"
    by (auto simp: item)
  show ?case
  proof (cases "list_all (\<lambda>dep. dep \<in> done_targets st) (deps ps) \<and> t \<notin> done_targets st")
    case True
    then have ready: "set (deps ps) \<subseteq> done_targets st" "t \<notin> done_targets st"
      by (auto simp: list_all_iff)
    from ret mem have "driver_returns sys repo t ps" by auto
    then obtain o2 where o2: "do_cpp sys repo t ps (out st @ [Doing t]) = Inr o2"
      "doing o2 = doing (out st @ [Doing t])"
      using driver_returns_any by blast
    define st1 where "st1 = \<lparr>done_targets = insert t (done_targets st), out = o2\<rparr>"
    have ord1: "ordered pd st1"
      unfolding st1_def using o2(2)
      by (intro ordered_step [OF dist mem Cons.prems(2) ready]) (simp add: doing_append)
    from Cons.IH [OF sub ord1] obtain st' where st':
      "scan sys repo items st1 = Inr st'" "ordered pd st'"
      "done_targets st1 \<subseteq> done_targets st'"
      "done_targets st' \<subseteq> done_targets st1 \<union> fst ` set items"
      "\<forall>(t, ps) \<in> set items. set (deps ps) \<subseteq> done_targets st1 \<longrightarrow> t \<in> done_targets st'"
      by blast
    have "scan sys repo (item # items) st = Inr st'"
      using True o2(1) st'(1) by (simp add: item st1_def)
    moreover have "done_targets st \<subseteq> done_targets st'" using st'(3) by (auto simp: st1_def)
    moreover have "done_targets st' \<subseteq> done_targets st \<union> fst ` set (item # items)"
      using st'(4) by (auto simp: st1_def item)
    moreover have "\<forall>(t, ps) \<in> set (item # items). set (deps ps) \<subseteq> done_targets st \<longrightarrow> t \<in> done_targets st'"
      using st'(3,5) by (auto simp: st1_def item)
    ultimately show ?thesis using st'(2) by blast
  next
    case False
    from Cons.IH [OF sub Cons.prems(2)] obtain st' where st':
      "scan sys repo items st = Inr st'" "ordered pd st'"
      "done_targets st \<subseteq> done_targets st'"
      "done_targets st' \<subseteq> done_targets st \<union> fst ` set items"
      "\<forall>(t, ps) \<in> set items. set (deps ps) \<subseteq> done_targets st \<longrightarrow> t \<in> done_targets st'"
      by blast
    have "scan sys repo (item # items) st = Inr st'"
      using False st'(1) by (auto simp: item)
    moreover have "set (deps ps) \<subseteq> done_targets st \<longrightarrow> t \<in> done_targets st'"
      using False st'(3) by (auto simp: list_all_iff)
    then have "\<forall>(t, ps) \<in> set (item # items). set (deps ps) \<subseteq> done_targets st \<longrightarrow> t \<in> done_targets st'"
      using st'(5) by (auto simp: item)
    moreover have "done_targets st' \<subseteq> done_targets st \<union> fst ` set (item # items)"
      using st'(4) by auto
    ultimately show ?thesis using st'(2,3) by blast
  qed
qed


lemma some_target_ready:
  assumes acyc: "acyclic (depends pd)"
    and defd: "\<forall>(t, ps) \<in> set pd. set (deps ps) \<subseteq> fst ` set pd"
    and sub: "done \<subseteq> fst ` set pd" and ne: "done \<noteq> fst ` set pd"
  shows "\<exists>(t, ps) \<in> set pd. t \<notin> done \<and> set (deps ps) \<subseteq> done"
proof -
  have "finite (depends pd)" unfolding depends_def by (rule finite_set)
  then have "wf (depends pd)" using acyc by (rule finite_acyclic_wf)
  moreover from sub ne obtain y where "y \<in> fst ` set pd - done" by blast
  ultimately obtain z where z: "z \<in> fst ` set pd - done"
    and zmin: "\<And>y. (y, z) \<in> depends pd \<Longrightarrow> y \<notin> fst ` set pd - done"
    by (rule wfE_min) blast
  from z obtain ps where ps: "(z, ps) \<in> set pd" by auto
  have "set (deps ps) \<subseteq> done"
  proof
    fix d assume d: "d \<in> set (deps ps)"
    with ps have "(d, z) \<in> depends pd" by (auto simp: depends_iff)
    then have "d \<notin> fst ` set pd - done" by (rule zmin)
    moreover from defd ps d have "d \<in> fst ` set pd" by auto
    ultimately show "d \<in> done" by simp
  qed
  with ps z show ?thesis by auto
qed

lemma run_loop_ok:
  assumes dist: "distinct (map fst pd)"
    and ret: "\<forall>(t, ps) \<in> set pd. driver_returns sys repo t ps"
    and acyc: "acyclic (depends pd)"
    and defd: "\<forall>(t, ps) \<in> set pd. set (deps ps) \<subseteq> fst ` set pd"
  shows "ordered pd st \<Longrightarrow> done_targets st \<subseteq> fst ` set pd \<Longrightarrow>
    \<exists>st'. run_loop sys repo (fst ` set pd) pd st = Some (Inr st') \<and> ordered pd st' \<and>
      done_targets st' = fst ` set pd"
proof (induction "card (fst ` set pd - done_targets st)" arbitrary: st rule: less_induct)
  case less
  show ?case
  proof (cases "fst ` set pd = done_targets st")
    case True
    then have "run_loop sys repo (fst ` set pd) pd st = Some (Inr st)"
      by (subst run_loop.simps) simp
    with True less.prems show ?thesis by auto
  next
    case False
    from scan_ok [OF dist ret subset_refl less.prems(1)] obtain st' where st':
      "scan sys repo pd st = Inr st'" "ordered pd st'"
      "done_targets st \<subseteq> done_targets st'"
      "done_targets st' \<subseteq> done_targets st \<union> fst ` set pd"
      "\<forall>(t, ps) \<in> set pd. set (deps ps) \<subseteq> done_targets st \<longrightarrow> t \<in> done_targets st'"
      by blast
    from some_target_ready [OF acyc defd less.prems(2)] False
    obtain t ps where t: "(t, ps) \<in> set pd" "t \<notin> done_targets st" "set (deps ps) \<subseteq> done_targets st"
      by auto
    with st'(5) have "t \<in> done_targets st'" by auto
    with t have "fst ` set pd - done_targets st' \<subset> fst ` set pd - done_targets st"
      using st'(3) by force
    then have "card (fst ` set pd - done_targets st') < card (fst ` set pd - done_targets st)"
      by (intro psubset_card_mono) auto
    moreover have "done_targets st' \<subseteq> fst ` set pd" using st'(4) less.prems(2) by auto
    ultimately obtain st'' where
      "run_loop sys repo (fst ` set pd) pd st' = Some (Inr st'') \<and> ordered pd st'' \<and>
        done_targets st'' = fst ` set pd"
      using less.hyps [OF _ st'(2)] by blast
    moreover have "run_loop sys repo (fst ` set pd) pd st = run_loop sys repo (fst ` set pd) pd st'"
      using False st'(1) by (subst run_loop.simps) simp
    ultimately show ?thesis by auto
  qed
qed

lemma ordered_start: "ordered pd start"
  by (simp add: ordered_def start_def)

text \<open>
  Claim C1, as the code has it. An exception of the toolchain driver ends the run, so
  the graph alone does not decide whether the loop completes. Let the dictionary of
  loaded rules have every dependency among its keys and no cycle among its
  dependencies, let the discovered targets be its keys (as the graph builder leaves
  them), and let the driver raise no exception on any of its targets: its path
  computations succeed, the output directory can be made, the programs can be launched
  (their exit statuses do not matter). Then the scheduling loop returns, with the
  completion set equal to the discovered targets; every target was handed to the
  driver exactly once, and after each of its dependencies was.
\<close>

theorem scheduler_completes_in_dependency_order:
  assumes "distinct (map fst prop_dict)"
    and "targets = fst ` set prop_dict"
    and "\<forall>(t, ps) \<in> set prop_dict. set (deps ps) \<subseteq> fst ` set prop_dict"
    and "acyclic (depends prop_dict)"
    and "\<forall>(t, ps) \<in> set prop_dict. driver_returns sys repo t ps"
  shows "\<exists>st. run_loop sys repo targets prop_dict start = Some (Inr st) \<and>
     done_targets st = targets \<and>
     set (doing (out st)) = targets \<and> distinct (doing (out st)) \<and>
     (\<forall>(d, t) \<in> depends prop_dict. precedes d t (doing (out st)))"
proof -
  from run_loop_ok [OF assms(1,5,4,3) ordered_start] obtain st where st:
    "run_loop sys repo (fst ` set prop_dict) prop_dict start = Some (Inr st)"
    "ordered prop_dict st" "done_targets st = fst ` set prop_dict"
    by (auto simp: start_def)
  have "precedes d t (doing (out st))" if "(d, t) \<in> depends prop_dict" for d t
  proof -
    from that have "t \<in> fst ` set prop_dict" by (force simp: depends_iff)
    with st(2,3) that show ?thesis by (auto simp: ordered_def)
  qed
  with st assms(2) show ?thesis by (auto simp: ordered_def)
qed

lemma app_graph_facts:
  "distinct (map fst app_graph)"
  "{pure_path ''//app/main'', pure_path ''//lib/core''} = fst ` set app_graph"
  "\<forall>(t, ps) \<in> set app_graph. set (deps ps) \<subseteq> fst ` set app_graph"
  "depends app_graph = {(pure_path ''//lib/core'', pure_path ''//app/main'')}"
  by (auto simp: app_graph_def main_ps_def core_ps_def pure_path_def depends_def)

lemma app_graph_acyclic: "acyclic (depends app_graph)"
  unfolding app_graph_facts(4) by (subst acyclic_insert) (simp add: acyclic_def pure_path_def)

lemma app_graph_returns: "\<forall>(t, ps) \<in> set app_graph. driver_returns (exit_with 0) (pure_path ''/r'') t ps"
  by (simp add: app_graph_def driver_returns_def main_ps_def core_ps_def path_eval driver_eval
      exit_with_def)

theorem scheduler_completes_in_dependency_order_witness:
  "\<exists>st. run_loop (exit_with 0) (pure_path ''/r'')
        {pure_path ''//app/main'', pure_path ''//lib/core''} app_graph start = Some (Inr st) \<and>
     done_targets st = {pure_path ''//app/main'', pure_path ''//lib/core''} \<and>
     set (doing (out st)) = {pure_path ''//app/main'', pure_path ''//lib/core''} \<and>
     distinct (doing (out st)) \<and>
     precedes (pure_path ''//lib/core'') (pure_path ''//app/main'') (doing (out st))"
  using scheduler_completes_in_dependency_order
    [OF app_graph_facts(1,2,3) app_graph_acyclic app_graph_returns]
  by (simp add: app_graph_facts(4))

text \<open>
  Against claim C1 as stated: \<^verbatim>\<open>//lib/bad\<close> has no dependency at all, so its graph is
  acyclic and fully defined, but its one source is \<^verbatim>\<open>/\<close>. On a system that makes every
  directory and launches every program the driver raises \<^verbatim>\<open>ValueError\<close> (the object
  path has no name to put a suffix on), and the run ends there with nothing completed.
\<close>

theorem bare_root_source_aborts:
  "distinct (map fst bad_graph) \<and> {pure_path ''//lib/bad''} = fst ` set bad_graph \<and>
   depends bad_graph = {} \<and> acyclic (depends bad_graph) \<and>
   run_loop (exit_with 0) (pure_path ''/r'') {pure_path ''//lib/bad''} bad_graph start =
     Some (Inl (ValueError,
       \<lparr>done_targets = {},
        out = [Doing (pure_path ''//lib/bad''), Mkdir (pure_path ''/r/lib/.out'')]\<rparr>))"
proof -
  have d: "depends bad_graph = {}" by (simp add: bad_graph_def bad_ps_def depends_def)
  have f: "do_cpp (exit_with 0) (pure_path ''/r'') (pure_path ''//lib/bad'') bad_ps
      [Doing (pure_path ''//lib/bad'')]
    = Inl (ValueError, [Doing (pure_path ''//lib/bad''), Mkdir (pure_path ''/r/lib/.out'')])"
    by (simp add: path_eval driver_eval bad_ps_def exit_with_def Let_def)
  have r: "run_loop (exit_with 0) (pure_path ''/r'') {pure_path ''//lib/bad''} bad_graph start =
     Some (Inl (ValueError,
       \<lparr>done_targets = {},
        out = [Doing (pure_path ''//lib/bad''), Mkdir (pure_path ''/r/lib/.out'')]\<rparr>))"
    by (subst run_loop.simps) (simp add: start_def bad_graph_def f, simp add: bad_ps_def)
  show ?thesis using d r by (simp add: bad_graph_def acyclic_def)
qed

section \<open>Scheduler: each target at most once\<close>

lemma scan_once:
  "once (Inr st) \<Longrightarrow> once (scan sys repo items st)"
proof (induction items arbitrary: st)
  case Nil
  then show ?case by simp
next
  case (Cons item items)
  obtain t ps where item: "item = (t, ps)" by (cases item)
  show ?case
  proof (cases "list_all (\<lambda>dep. dep \<in> done_targets st) (deps ps) \<and> t \<notin> done_targets st")
    case False
    then show ?thesis using Cons by (auto simp: item)
  next
    case True
    show ?thesis
    proof (cases "do_cpp sys repo t ps (out st @ [Doing t])")
      case (Inl failure)
      obtain e o2 where f: "failure = (e, o2)" by (cases failure)
      with Inl have "doing o2 = doing (out st) @ [t]"
        using do_cpp_doing(2) by (simp add: doing_append)
      with True Inl f Cons.prems show ?thesis
        by (auto simp: item once_def)
    next
      case (Inr o2)
      then have "doing o2 = doing (out st) @ [t]"
        using do_cpp_doing(1) by (simp add: doing_append)
      with True Cons.prems have "once (Inr \<lparr>done_targets = insert t (done_targets st), out = o2\<rparr>)"
        by (auto simp: once_def)
      from Cons.IH [OF this] True Inr show ?thesis by (simp add: item)
    qed
  qed
qed

lemma passes_once:
  "once (Inr st) \<Longrightarrow> once (passes n sys repo targets pd st)"
proof (induction n arbitrary: st)
  case 0
  then show ?case by simp
next
  case (Suc n)
  show ?case
  proof (cases "scan sys repo pd st")
    case (Inl failure)
    with scan_once [OF Suc.prems, of sys repo pd] Suc.prems show ?thesis by auto
  next
    case (Inr st')
    with scan_once [OF Suc.prems, of sys repo pd] have "once (Inr st')" by simp
    from Suc.IH [OF this] Inr Suc.prems show ?thesis by auto
  qed
qed

lemma once_state_of:
  "once r \<Longrightarrow>
   distinct (doing (out (state_of r))) \<and> done_targets (state_of r) \<subseteq> set (doing (out (state_of r)))"
  by (auto simp: once_def state_of_def split: sum.splits)

lemma once_start: "once (Inr start)"
  by (simp add: once_def start_def)

text \<open>
  Claim C10. At every point of a run, after any number of passes and also when the
  run has returned or an exception has ended it, the targets handed to the toolchain
  driver are pairwise different, and the completed targets are among them: a target
  in the completion set is never handed to the driver again.
\<close>

theorem no_target_done_twice:
  "distinct (doing (out (state_of (passes n sys repo targets prop_dict start)))) \<and>
   done_targets (state_of (passes n sys repo targets prop_dict start))
     \<subseteq> set (doing (out (state_of (passes n sys repo targets prop_dict start)))) \<and>
   (\<forall>r. run_loop sys repo targets prop_dict start = Some r \<longrightarrow>
      distinct (doing (out (state_of r))) \<and>
      done_targets (state_of r) \<subseteq> set (doing (out (state_of r))))"
proof -
  have "once r" if "run_loop sys repo targets prop_dict start = Some r" for r
  proof -
    from run_loop_passes [OF that] obtain k where
      "passes k sys repo targets prop_dict start = r" by blast
    with passes_once [OF once_start, of k sys repo targets prop_dict]
    show ?thesis by simp
  qed
  with passes_once [OF once_start, of n sys repo targets prop_dict]
  show ?thesis using once_state_of by blast
qed

theorem no_target_done_twice_witness:
  "distinct (doing (out (state_of (passes 2 (exit_with 0) (pure_path ''/r'')
      {pure_path ''//app/main'', pure_path ''//lib/core''} app_graph start)))) \<and>
   (\<exists>st. run_loop (exit_with 0) (pure_path ''/r'')
      {pure_path ''//app/main'', pure_path ''//lib/core''} app_graph start = Some (Inr st) \<and>
      distinct (doing (out st)) \<and> done_targets st \<subseteq> set (doing (out st)))"
proof -
  from run_loop_ok [OF app_graph_facts(1) app_graph_returns app_graph_acyclic app_graph_facts(3)
      ordered_start]
  obtain st where st: "run_loop (exit_with 0) (pure_path ''/r'')
      {pure_path ''//app/main'', pure_path ''//lib/core''} app_graph start = Some (Inr st)"
    by (auto simp: start_def app_graph_facts(2))
  have "state_of (Inr st) = st" by (simp add: state_of_def)
  with st no_target_done_twice [of 2 "exit_with 0" "pure_path ''/r''"
      "{pure_path ''//app/main'', pure_path ''//lib/core''}" app_graph]
  show ?thesis by metis
qed

section \<open>Scheduler: a pass that completes nothing\<close>

lemma scan_mono: "scan sys repo items st = Inr st' \<Longrightarrow> done_targets st \<subseteq> done_targets st'"
proof (induction items arbitrary: st)
  case Nil
  then show ?case by simp
next
  case (Cons item items)
  obtain t ps where item: "item = (t, ps)" by (cases item)
  show ?case
  proof (cases "list_all (\<lambda>dep. dep \<in> done_targets st) (deps ps) \<and> t \<notin> done_targets st")
    case False
    with Cons show ?thesis by (auto simp: item)
  next
    case True
    with Cons.prems obtain o2 where
      "scan sys repo items \<lparr>done_targets = insert t (done_targets st), out = o2\<rparr> = Inr st'"
      by (auto simp: item split: sum.splits)
    from Cons.IH [OF this] show ?thesis by auto
  qed
qed

lemma scan_idle:
  "scan sys repo items st = Inr st' \<Longrightarrow> done_targets st' = done_targets st \<Longrightarrow> st' = st"
proof (induction items arbitrary: st)
  case Nil
  then show ?case by simp
next
  case (Cons item items)
  obtain t ps where item: "item = (t, ps)" by (cases item)
  show ?case
  proof (cases "list_all (\<lambda>dep. dep \<in> done_targets st) (deps ps) \<and> t \<notin> done_targets st")
    case False
    with Cons show ?thesis by (auto simp: item)
  next
    case True
    with Cons.prems(1) obtain o2 where
      "scan sys repo items \<lparr>done_targets = insert t (done_targets st), out = o2\<rparr> = Inr st'"
      by (auto simp: item split: sum.splits)
    from scan_mono [OF this] have "t \<in> done_targets st'" by simp
    with True Cons.prems(2) show ?thesis by simp
  qed
qed

lemma passes_stuck:
  "targets \<noteq> done_targets st \<Longrightarrow> scan sys repo pd st = Inr st \<Longrightarrow>
   passes n sys repo targets pd st = Inr st"
  by (induction n) auto

lemma run_loop_stuck:
  assumes "targets \<noteq> done_targets st" and "scan sys repo pd st = Inr st"
  shows "run_loop sys repo targets pd st = None"
proof (cases "run_loop sys repo targets pd st")
  case (Some r)
  from run_loop_passes [OF this] obtain n where
    "passes n sys repo targets pd st = r" "finished targets r" by blast
  with passes_stuck [OF assms, of n] assms(1) show ?thesis by (auto simp: finished_def)
qed simp

text \<open>
  Claim C3, as the code has it. The loop has no progress check. When targets are
  pending and a full pass completes none of them, the pass leaves the state exactly as
  it was, every later pass does the same, and the run never returns; it raises no
  error.
\<close>

theorem idle_pass_repeats_forever:
  assumes "targets \<noteq> done_targets st"
    and "scan sys repo prop_dict st = Inr st'"
    and "done_targets st' = done_targets st"
  shows "st' = st \<and> (\<forall>n. passes n sys repo targets prop_dict st = Inr st) \<and>
    run_loop sys repo targets prop_dict st = None"
proof -
  from scan_idle [OF assms(2,3)] have eq: "st' = st" .
  with assms(2) have "scan sys repo prop_dict st = Inr st" by simp
  with eq passes_stuck [OF assms(1) this] run_loop_stuck [OF assms(1) this]
  show ?thesis by blast
qed

lemma cycle_idle: "scan sys repo cycle_graph start = Inr start"
  by (simp add: cycle_graph_def ping_ps_def pong_ps_def start_def)

lemma cycle_pending: "{pure_path ''//a/ping'', pure_path ''//b/pong''} \<noteq> done_targets start"
  by (simp add: start_def)

theorem idle_pass_repeats_forever_witness:
  "{pure_path ''//a/ping'', pure_path ''//b/pong''} \<noteq> done_targets start \<and>
   scan (exit_with 0) (pure_path ''/r'') cycle_graph start = Inr start \<and>
   passes 3 (exit_with 0) (pure_path ''/r'') {pure_path ''//a/ping'', pure_path ''//b/pong''}
     cycle_graph start = Inr start \<and>
   run_loop (exit_with 0) (pure_path ''/r'') {pure_path ''//a/ping'', pure_path ''//b/pong''}
     cycle_graph start = None"
  using idle_pass_repeats_forever [OF cycle_pending cycle_idle refl, of "exit_with 0" "pure_path ''/r''"]
    cycle_pending cycle_idle
  by blast

text \<open>
  Against claim C3 as stated: for two targets each depending on the other the run does
  not fail with an error, it does not return.
\<close>

theorem mutual_dependency_hangs:
  "run_loop (exit_with 0) (pure_path ''/r'') {pure_path ''//a/ping'', pure_path ''//b/pong''}
     cycle_graph start = None"
  by (rule run_loop_stuck [OF cycle_pending cycle_idle])

section \<open>Scheduler: a dependency that is defined nowhere\<close>

lemma scan_never_ready:
  assumes dist: "distinct (map fst pd)" and x: "(x, xps) \<in> set pd" "d \<in> set (deps xps)"
    and und: "d \<notin> fst ` set pd"
  shows "set items \<subseteq> set pd \<Longrightarrow> never_ready x d st \<Longrightarrow>
    never_ready x d (state_of (scan sys repo items st))"
proof (induction items arbitrary: st)
  case Nil
  then show ?case by (simp add: state_of_def)
next
  case (Cons item items)
  obtain t ps where item: "item = (t, ps)" by (cases item)
  from Cons.prems have mem: "(t, ps) \<in> set pd" and sub: "set items \<subseteq> set pd"
    by (auto simp: item)
  show ?case
  proof (cases "list_all (\<lambda>dep. dep \<in> done_targets st) (deps ps) \<and> t \<notin> done_targets st")
    case False
    then show ?thesis using Cons.IH [OF sub Cons.prems(2)] by (auto simp: item)
  next
    case True
    have tx: "t \<noteq> x"
    proof
      assume "t = x"
      with dist mem x(1) have "ps = xps" by (metis eq_key_imp_eq_value)
      with True x(2) have "d \<in> done_targets st" by (auto simp: list_all_iff)
      with Cons.prems(2) show False by (simp add: never_ready_def)
    qed
    have td: "t \<noteq> d" using mem und by force
    show ?thesis
    proof (cases "do_cpp sys repo t ps (out st @ [Doing t])")
      case (Inl failure)
      obtain e o2 where f: "failure = (e, o2)" by (cases failure)
      with Inl have "doing o2 = doing (out st) @ [t]"
        using do_cpp_doing(2) by (simp add: doing_append)
      with True Inl f tx Cons.prems(2) show ?thesis
        by (auto simp: item state_of_def never_ready_def)
    next
      case (Inr o2)
      then have "doing o2 = doing (out st) @ [t]"
        using do_cpp_doing(1) by (simp add: doing_append)
      with tx td Cons.prems(2)
      have "never_ready x d \<lparr>done_targets = insert t (done_targets st), out = o2\<rparr>"
        by (auto simp: never_ready_def)
      from Cons.IH [OF sub this] True Inr show ?thesis by (simp add: item)
    qed
  qed
qed

lemma passes_never_ready:
  assumes dist: "distinct (map fst pd)" and x: "(x, xps) \<in> set pd" "d \<in> set (deps xps)"
    and und: "d \<notin> fst ` set pd"
  shows "never_ready x d st \<Longrightarrow> never_ready x d (state_of (passes n sys repo targets pd st))"
proof (induction n arbitrary: st)
  case 0
  then show ?case by (simp add: state_of_def)
next
  case (Suc n)
  note step = scan_never_ready [OF dist x und subset_refl Suc.prems, of sys repo]
  show ?case
  proof (cases "scan sys repo pd st")
    case (Inl failure)
    with step Suc.prems show ?thesis by (auto simp: state_of_def)
  next
    case (Inr st')
    with step have "never_ready x d st'" by (simp add: state_of_def)
    from Suc.IH [OF this] Inr Suc.prems show ?thesis by (auto simp: state_of_def)
  qed
qed

lemma scan_returns:
  "\<forall>(t, ps) \<in> set items. driver_returns sys repo t ps \<Longrightarrow> \<exists>st'. scan sys repo items st = Inr st'"
proof (induction items arbitrary: st)
  case Nil
  then show ?case by simp
next
  case (Cons item items)
  obtain t ps where item: "item = (t, ps)" by (cases item)
  from Cons.prems have "driver_returns sys repo t ps" by (simp add: item)
  then obtain o2 where "do_cpp sys repo t ps (out st @ [Doing t]) = Inr o2"
    using driver_returns_any by blast
  moreover from Cons.prems have "\<forall>(t, ps) \<in> set items. driver_returns sys repo t ps" by simp
  note Cons.IH [OF this]
  ultimately show ?case by (simp add: item)
qed

lemma passes_returns:
  "\<forall>(t, ps) \<in> set pd. driver_returns sys repo t ps \<Longrightarrow> \<exists>st'. passes n sys repo targets pd st = Inr st'"
proof (induction n arbitrary: st)
  case 0
  then show ?case by simp
next
  case (Suc n)
  from scan_returns [OF Suc.prems, of st] obtain st' where "scan sys repo pd st = Inr st'" ..
  with Suc.IH [OF Suc.prems, of st'] show ?case by simp
qed

lemma never_ready_start: "never_ready x d start"
  by (simp add: never_ready_def start_def)

text \<open>
  Claim C5, as the code has it. When a target \<open>x\<close> of the discovered set lists a
  dependency that is no key of the dictionary, \<open>x\<close> is never handed to the driver, so
  nothing is built for it; no error names the missing identifier; the loop is never
  left, and unless the driver raises an exception on some other target the run never
  returns.
\<close>

theorem undefined_dependency_blocks_forever:
  assumes "distinct (map fst prop_dict)"
    and "(x, ps) \<in> set prop_dict" and "d \<in> set (deps ps)"
    and "d \<notin> fst ` set prop_dict"
    and "x \<in> targets"
  shows "(\<forall>n. x \<notin> set (doing (out (state_of (passes n sys repo targets prop_dict start))))) \<and>
    (\<forall>st. run_loop sys repo targets prop_dict start \<noteq> Some (Inr st)) \<and>
    ((\<forall>(t, tps) \<in> set prop_dict. driver_returns sys repo t tps) \<longrightarrow>
       run_loop sys repo targets prop_dict start = None)"
proof -
  note never = passes_never_ready [OF assms(1-4) never_ready_start, of _ sys repo targets]
  have a: "\<forall>n. x \<notin> set (doing (out (state_of (passes n sys repo targets prop_dict start))))"
    using never by (simp add: never_ready_def)
  have b: "run_loop sys repo targets prop_dict start \<noteq> Some (Inr st)" for st
  proof
    assume "run_loop sys repo targets prop_dict start = Some (Inr st)"
    from run_loop_passes [OF this] obtain n where
      n: "passes n sys repo targets prop_dict start = Inr st" "finished targets (Inr st)"
      by blast
    from never [of n] n(1) have "x \<notin> done_targets st" by (simp add: never_ready_def state_of_def)
    with n(2) assms(5) show False by (simp add: finished_def)
  qed
  have c: "run_loop sys repo targets prop_dict start = None"
    if ret: "\<forall>(t, tps) \<in> set prop_dict. driver_returns sys repo t tps"
  proof (cases "run_loop sys repo targets prop_dict start")
    case (Some r)
    from run_loop_passes [OF this] obtain n where
      "passes n sys repo targets prop_dict start = r" by blast
    with passes_returns [OF ret, of n targets start] obtain st where "r = Inr st"
      by auto
    with Some b show ?thesis by simp
  qed simp
  from a b c show ?thesis by blast
qed

lemma x_graph_facts:
  "distinct (map fst x_graph)"
  "(pure_path ''//x/x'', x_ps) \<in> set x_graph"
  "pure_path ''//y/missing'' \<in> set (deps x_ps)"
  "pure_path ''//y/missing'' \<notin> fst ` set x_graph"
  "pure_path ''//x/x'' \<in> {pure_path ''//x/x''}"
  by (simp_all add: x_graph_def x_ps_def pure_path_def)

lemma x_graph_returns: "\<forall>(t, tps) \<in> set x_graph. driver_returns (exit_with 0) (pure_path ''/r'') t tps"
  by (simp add: x_graph_def driver_returns_def x_ps_def path_eval driver_eval exit_with_def Let_def)

theorem undefined_dependency_blocks_forever_witness:
  "pure_path ''//y/missing'' \<in> set (deps x_ps) \<and>
   pure_path ''//y/missing'' \<notin> fst ` set x_graph \<and>
   pure_path ''//x/x''
     \<notin> set (doing (out (state_of (passes 3 (exit_with 0) (pure_path ''/r'') {pure_path ''//x/x''} x_graph start)))) \<and>
   run_loop (exit_with 0) (pure_path ''/r'') {pure_path ''//x/x''} x_graph start = None"
  using undefined_dependency_blocks_forever
    [OF x_graph_facts, of "exit_with 0" "pure_path ''/r''"] x_graph_facts(3,4) x_graph_returns
  by blast

lemma x_idle: "scan sys repo x_graph start = Inr start"
  by (simp add: x_graph_def x_ps_def start_def)

lemma x_pending: "{pure_path ''//x/x''} \<noteq> done_targets start"
  by (simp add: start_def)

text \<open>
  Against claim C5 as stated: \<^verbatim>\<open>//x/x\<close> depends on \<^verbatim>\<open>//y/missing\<close>, which no rule
  file defines, and the run does not fail with an error, it does not return.
\<close>

theorem missing_target_hangs:
  "run_loop (exit_with 0) (pure_path ''/r'') {pure_path ''//x/x''} x_graph start = None"
  by (rule run_loop_stuck [OF x_pending x_idle])

end
